theory Spec2Isabelle
  imports Complex_Main
begin

section \<open>Data model (types.ts and the constants of GeminiSlingshot.tsx)\<close>

datatype BubbleColor = Red | Blue | Green | Yellow | Purple | Orange

datatype Difficulty = Easy | Medium | Hard | Infinity

text \<open>
  The \<open>Bubble\<close> interface. Field names carry the prefix \<open>b_\<close> (a record field is a
  global constant in HOL, and \<open>id\<close>, \<open>x\<close>, \<open>y\<close> would shadow too much).
  Grid coordinates are JavaScript numbers that only ever hold integers, so they are
  \<open>int\<close>; pixel positions and time stamps are \<open>real\<close>. The optional flag
  \<open>isFloating\<close> is only ever tested for truthiness, so an absent flag is \<open>False\<close>;
  the optional \<open>popTime\<close> and the ad-hoc velocity fields \<open>vx\<close>, \<open>vy\<close> are options.
\<close>

record Bubble =
  b_id :: string
  b_row :: int
  b_col :: int
  b_x :: real
  b_y :: real
  b_color :: BubbleColor
  b_active :: bool
  b_isFloating :: bool
  b_popTime :: "real option"
  b_vx :: "real option"
  b_vy :: "real option"

subsection \<open>Hex adjacency\<close>

text \<open>JavaScript's \<open>%\<close> truncates towards zero: the result has the sign of the dividend.\<close>

definition js_rem :: "int \<Rightarrow> int \<Rightarrow> int" where
  "js_rem a b = sgn a * (\<bar>a\<bar> mod \<bar>b\<bar>)"

definition isNeighbor :: "Bubble \<Rightarrow> Bubble \<Rightarrow> bool" where
  "isNeighbor a b =
     (let dr = b_row b - b_row a;
          dc = b_col b - b_col a
      in if \<bar>dr\<bar> > 1 then False
         else if dr = 0 then \<bar>dc\<bar> = 1
         else if js_rem (b_row a) 2 \<noteq> 0 then dc = 0 \<or> dc = 1
         else dc = -1 \<or> dc = 0)"

text \<open>
  The adjacency rule in the words of the specification, where the parity is that of
  "the lower-row cell". The row index of that cell is a parameter, so that both
  readings of the phrase can be compared with the code: the cell with the smaller row
  index (\<open>min\<close>), or the cell drawn lower on the screen (\<open>max\<close>).
\<close>

definition spec_areNeighbors :: "(int \<Rightarrow> int \<Rightarrow> int) \<Rightarrow> Bubble \<Rightarrow> Bubble \<Rightarrow> bool" where
  "spec_areNeighbors lowerRow a b =
     (let dr = b_row b - b_row a;
          dc = b_col b - b_col a
      in if \<bar>dr\<bar> > 1 then False
         else if dr = 0 then \<bar>dc\<bar> = 1
         else if odd (lowerRow (b_row a) (b_row b)) then dc = 0 \<or> dc = 1
         else dc = -1 \<or> dc = 0)"

text \<open>A settled bubble at a cell, for concrete boards.\<close>

definition cell :: "string \<Rightarrow> int \<Rightarrow> int \<Rightarrow> BubbleColor \<Rightarrow> Bubble" where
  "cell i r c k =
     \<lparr>b_id = i, b_row = r, b_col = c, b_x = 0, b_y = 0, b_color = k, b_active = True,
      b_isFloating = False, b_popTime = None, b_vx = None, b_vy = None\<rparr>"

subsection \<open>Configuration tables\<close>

definition BUBBLE_RADIUS :: real where "BUBBLE_RADIUS = 20"
definition ROW_HEIGHT :: real where "ROW_HEIGHT = BUBBLE_RADIUS * sqrt 3"
definition MAX_GRID_COLS :: int where "MAX_GRID_COLS = 16"
definition GRID_ROWS :: nat where "GRID_ROWS = 10"
definition SLINGSHOT_BOTTOM_OFFSET :: real where "SLINGSHOT_BOTTOM_OFFSET = 220"

fun dropInterval :: "Difficulty \<Rightarrow> real" where
  "dropInterval Easy = 60000"
| "dropInterval Medium = 40000"
| "dropInterval Hard = 20000"
| "dropInterval Infinity = 30000"

fun initialRows :: "Difficulty \<Rightarrow> nat" where
  "initialRows Easy = 6"
| "initialRows Medium = 8"
| "initialRows Hard = 10"
| "initialRows Infinity = 9"

fun density :: "Difficulty \<Rightarrow> real" where
  "density Easy = 0.85"
| "density Medium = 0.9"
| "density Hard = 0.95"
| "density Infinity = 0.9"

fun winScore :: "Difficulty \<Rightarrow> int" where
  "winScore Easy = 3000"
| "winScore Medium = 8000"
| "winScore Hard = 15000"
| "winScore Infinity = 9007199254740991"

text \<open>The \<open>points\<close> column of \<open>COLOR_CONFIG\<close>.\<close>

fun points :: "BubbleColor \<Rightarrow> int" where
  "points Red = 100"
| "points Blue = 150"
| "points Green = 200"
| "points Yellow = 250"
| "points Purple = 300"
| "points Orange = 500"

definition COLOR_KEYS :: "BubbleColor list" where
  "COLOR_KEYS = [Red, Blue, Green, Yellow, Purple, Orange]"

subsection \<open>The environment of one operation\<close>

text \<open>
  What an operation reads from outside the game state: the clock (\<open>performance.now()\<close>,
  taken as one reading per operation), \<open>Date.now()\<close>, the canvas size, and the values
  that successive calls of \<open>Math.random()\<close> return, as a stream \<open>rnd\<close> read through an
  index that every call advances. The shuffle of \<open>initGrid\<close>,
  \<open>[...COLOR_KEYS].sort(() => Math.random() - 0.5)\<close>, depends on the engine's sorting
  algorithm: its result and the number of draws it makes are given by the environment.
\<close>

record Env =
  now :: real
  dateNow :: nat
  canvasWidth :: real
  canvasHeight :: real
  shuffled :: "BubbleColor list"
  shuffleDraws :: nat
  rnd :: "nat \<Rightarrow> real"

text \<open>\<open>xs[Math.floor(Math.random() * xs.length)]\<close>, for a draw \<open>u\<close>.\<close>

definition pick :: "'a list \<Rightarrow> real \<Rightarrow> 'a" where
  "pick xs u = xs ! nat \<lfloor>u * real (length xs)\<rfloor>"

text \<open>\<open>Array.from(new Set(xs))\<close>: the distinct elements in the order of first occurrence.\<close>

definition uniq :: "'a list \<Rightarrow> 'a list" where
  "uniq xs = rev (remdups (rev xs))"

text \<open>Decimal digits of a number inside a template string.\<close>

definition digit :: "nat \<Rightarrow> char" where
  "digit n = ''0123456789'' ! n"

function toString :: "nat \<Rightarrow> string" where
  "toString n = (if n < 10 then [digit n] else toString (n div 10) @ [digit (n mod 10)])"
  by pat_completeness auto
termination
  by (relation "measure (\<lambda>n. n)") auto

declare toString.simps [simp del]

subsection \<open>The game state\<close>

text \<open>
  The refs and React state of the component that the grid engine reads or writes.
  \<open>Bubble\<close> objects are shared by reference between \<open>bubbles.current\<close> and
  \<open>pendingMatches\<close>; the model holds values and identifies an object by its \<open>id\<close>
  (built from cell and time stamp). A ref that an effect keeps equal to a React state
  (\<open>gameOverRef\<close>, \<open>isPausedRef\<close>, \<open>currentAmmoRef\<close>, \<open>nextAmmoRef\<close>) is one field with
  it. The frame callback \<open>onResults\<close> reads \<open>gameWon\<close> through the closure of the
  effect that installed it: \<open>gameWonSeen\<close> is that captured value.
\<close>

record GameState =
  bubbles :: "Bubble list"
  pendingMatches :: "Bubble list"
  isQuizActiveRef :: bool
  scoreRef :: int
  lastDropTimeRef :: real
  hasWonRef :: bool
  gameWon :: bool
  gameWonSeen :: bool
  gameOver :: bool
  isPaused :: bool
  gridColsRef :: nat
  userProfile :: "Difficulty option"
  currentAmmo :: BubbleColor
  nextAmmo :: BubbleColor
  isFlying :: bool
  isPinching :: bool
  ballPos :: "real \<times> real"
  ballVel :: "real \<times> real"
  anchorPos :: "real \<times> real"

subsection \<open>Grid geometry\<close>

definition getBubblePos :: "nat \<Rightarrow> int \<Rightarrow> int \<Rightarrow> real \<Rightarrow> real \<times> real" where
  "getBubblePos cols r c width =
     (let xOffset = (width - (real cols * BUBBLE_RADIUS * 2)) / 2 + BUBBLE_RADIUS;
          isOdd = (js_rem r 2 \<noteq> 0);
          x = xOffset + real_of_int c * (BUBBLE_RADIUS * 2) + (if isOdd then BUBBLE_RADIUS else 0);
          y = BUBBLE_RADIUS + real_of_int r * ROW_HEIGHT
      in (x, y))"

subsection \<open>Colour policy\<close>

text \<open>Returns the colour and the index of the next unread draw.\<close>

definition getNextBubbleColor ::
  "Bubble list \<Rightarrow> BubbleColor list \<Rightarrow> Difficulty \<Rightarrow> (nat \<Rightarrow> real) \<Rightarrow> nat \<Rightarrow> BubbleColor \<times> nat" where
  "getNextBubbleColor currentBubbles forbiddenColors difficulty r i =
     (let activeColors = uniq (map b_color (filter b_active currentBubbles))
      in if length activeColors = 0 then (pick COLOR_KEYS (r i), i + 1)
         else
           let candidates0 = filter (\<lambda>c. c \<notin> set forbiddenColors) activeColors;
               candidates = (if length candidates0 = 0
                             then filter (\<lambda>c. c \<notin> set forbiddenColors) COLOR_KEYS
                             else candidates0)
           in if length candidates = 0 then (pick COLOR_KEYS (r i), i + 1)
              else
                let introduceNewColorChance =
                      (if difficulty = Infinity then 0.35
                       else if difficulty = Hard then 0.1 else 0.05);
                    allValid = filter (\<lambda>c. c \<notin> set forbiddenColors) COLOR_KEYS
                in if r i < introduceNewColorChance \<and> length allValid > 0
                   then (pick allValid (r (i + 1)), i + 2)
                   else (pick candidates (r (i + 1)), i + 2))"

subsection \<open>Seeding the grid\<close>

definition newBubble :: "string \<Rightarrow> int \<Rightarrow> int \<Rightarrow> real \<times> real \<Rightarrow> BubbleColor \<Rightarrow> Bubble" where
  "newBubble i r c pos k =
     \<lparr>b_id = i, b_row = r, b_col = c, b_x = fst pos, b_y = snd pos, b_color = k,
      b_active = True, b_isFloating = False, b_popTime = None, b_vx = None, b_vy = None\<rparr>"

text \<open>The body of the inner loop of \<open>initGrid\<close>, for the cell \<open>(r, c)\<close>.\<close>

definition initCell ::
  "real \<Rightarrow> nat \<Rightarrow> BubbleColor list \<Rightarrow> real \<Rightarrow> nat \<Rightarrow> (nat \<Rightarrow> real) \<Rightarrow> nat \<Rightarrow> nat
     \<Rightarrow> Bubble list \<times> nat \<Rightarrow> Bubble list \<times> nat" where
  "initCell width cols levelPalette dens dnow r row c acc =
     (let newBubbles = fst acc; i = snd acc
      in if r i < dens then
           let forbidden =
                 (if length newBubbles \<ge> 2 then
                    let prev1 = newBubbles ! (length newBubbles - 1);
                        prev2 = newBubbles ! (length newBubbles - 2)
                    in if b_row prev1 = int row \<and> b_color prev1 = b_color prev2
                       then [b_color prev1] else []
                  else []);
               candidates0 = filter (\<lambda>k. k \<notin> set forbidden) levelPalette;
               candidates = (if length candidates0 = 0 then levelPalette else candidates0);
               selectedColor = pick candidates (r (i + 1))
           in (newBubbles @
                 [newBubble (toString row @ ''-'' @ toString c @ ''-'' @ toString dnow)
                    (int row) (int c) (getBubblePos cols (int row) (int c) width) selectedColor],
               i + 2)
         else (newBubbles, i + 1))"

definition initRow ::
  "real \<Rightarrow> nat \<Rightarrow> BubbleColor list \<Rightarrow> real \<Rightarrow> nat \<Rightarrow> (nat \<Rightarrow> real) \<Rightarrow> nat
     \<Rightarrow> Bubble list \<times> nat \<Rightarrow> Bubble list \<times> nat" where
  "initRow width cols levelPalette dens dnow r row acc =
     fold (initCell width cols levelPalette dens dnow r row)
       [0 ..< (if js_rem (int row) 2 \<noteq> 0 then cols - 1 else cols)] acc"

definition numColors :: "Difficulty \<Rightarrow> nat" where
  "numColors difficulty =
     (if difficulty = Infinity then 6 else if difficulty = Hard then 6
      else if difficulty = Easy then 4 else 5)"

definition initGrid :: "Env \<Rightarrow> real \<Rightarrow> Difficulty \<Rightarrow> GameState \<Rightarrow> nat \<Rightarrow> GameState \<times> nat" where
  "initGrid env width difficulty st i0 =
     (let calculatedCols = max 5 \<lfloor>(width - 40) / (BUBBLE_RADIUS * 2.1)\<rfloor>;
          cols = nat (min MAX_GRID_COLS calculatedCols);
          levelPalette = take (numColors difficulty) (shuffled env);
          grid = fold (initRow width cols levelPalette (density difficulty) (dateNow env) (rnd env))
                   [0 ..< initialRows difficulty] ([], i0 + shuffleDraws env);
          newBubbles = fst grid; i = snd grid;
          activeColors = uniq (map b_color newBubbles);
          st1 = st\<lparr>gridColsRef := cols, bubbles := newBubbles, lastDropTimeRef := now env,
                   gameOver := False, gameWon := False, hasWonRef := False\<rparr>
      in if length activeColors > 0
         then (st1\<lparr>currentAmmo := pick activeColors (rnd env i),
                    nextAmmo := pick activeColors (rnd env (i + 1))\<rparr>, i + 2)
         else (st1, i))"

subsection \<open>Row spawn\<close>

text \<open>The shift of \<open>addNewRow\<close>: every bubble moves one row down and is repositioned.\<close>

definition shiftDown :: "nat \<Rightarrow> real \<Rightarrow> Bubble list \<Rightarrow> Bubble list" where
  "shiftDown cols width bs =
     map (\<lambda>b. let pos = getBubblePos cols (b_row b + 1) (b_col b) width
              in b\<lparr>b_row := b_row b + 1, b_x := fst pos, b_y := snd pos\<rparr>) bs"

text \<open>
  \<open>Math.max(...ys) > limit\<close>; the maximum of no numbers is \<open>-Infinity\<close>, which is above
  no limit.
\<close>

definition maxAbove :: "real list \<Rightarrow> real \<Rightarrow> bool" where
  "maxAbove ys limit = (if ys = [] then False else Max (set ys) > limit)"

text \<open>The body of the column loop of \<open>addNewRow\<close>.\<close>

definition newRowCell ::
  "Bubble list \<Rightarrow> real \<Rightarrow> nat \<Rightarrow> Difficulty \<Rightarrow> real \<Rightarrow> nat \<Rightarrow> (nat \<Rightarrow> real) \<Rightarrow> nat
     \<Rightarrow> Bubble list \<times> nat \<Rightarrow> Bubble list \<times> nat" where
  "newRowCell board width cols difficulty dens dnow r c acc =
     (let newRowBubbles = fst acc; i = snd acc
      in if r i < dens then
           let forbidden =
                 (if length newRowBubbles \<ge> 2 then
                    let prev1 = newRowBubbles ! (length newRowBubbles - 1);
                        prev2 = newRowBubbles ! (length newRowBubbles - 2)
                    in if b_color prev1 = b_color prev2 then [b_color prev1] else []
                  else []);
               chosen = getNextBubbleColor board forbidden difficulty r (i + 1)
           in (newRowBubbles @
                 [newBubble (''new-'' @ toString dnow @ ''-'' @ toString c)
                    0 (int c) (getBubblePos cols 0 (int c) width) (fst chosen)],
               snd chosen)
         else (newRowBubbles, i + 1))"

definition addNewRow :: "Env \<Rightarrow> GameState \<Rightarrow> GameState" where
  "addNewRow env st =
     (let shifted = shiftDown (gridColsRef st) (canvasWidth env) (bubbles st);
          st1 = st\<lparr>bubbles := shifted\<rparr>
      in if maxAbove (map b_y (filter b_active shifted))
              (canvasHeight env - SLINGSHOT_BOTTOM_OFFSET - 80)
         then st1\<lparr>gameOver := True\<rparr>
         else
           let colsInRow = gridColsRef st;
               difficulty = (case userProfile st of Some d \<Rightarrow> d | None \<Rightarrow> Medium);
               dens = (case userProfile st of Some d \<Rightarrow> density d | None \<Rightarrow> 0.85);
               newRowBubbles =
                 fst (fold (newRowCell shifted (canvasWidth env) colsInRow difficulty dens
                              (dateNow env) (rnd env))
                        [0 ..< colsInRow] ([], 0))
           in st1\<lparr>bubbles := shifted @ newRowBubbles, lastDropTimeRef := now env\<rparr>)"

text \<open>The "Auto Drop" block at the head of the frame callback \<open>onResults\<close>.\<close>

definition autoDrop :: "Env \<Rightarrow> GameState \<Rightarrow> GameState" where
  "autoDrop env st =
     (if isPaused st \<or> gameOver st then st
      else case userProfile st of
             None \<Rightarrow> st
           | Some d \<Rightarrow>
               if \<not> isQuizActiveRef st \<and> \<not> isPinching st \<and> \<not> isFlying st \<and> \<not> gameWonSeen st
                  \<and> now env - lastDropTimeRef st > dropInterval d
               then addNewRow env st else st)"

subsection \<open>Colour flood fill\<close>

text \<open>
  The loop of \<open>checkMatches\<close>. The stack \<open>toCheck\<close> is a list with its top at the head:
  \<open>pop\<close> takes the head, and \<open>push(...xs)\<close>, which leaves the last element of \<open>xs\<close> on
  top, puts \<open>rev xs\<close> in front.
\<close>

function (sequential) floodFill ::
  "Bubble list \<Rightarrow> BubbleColor \<Rightarrow> Bubble list \<Rightarrow> string set \<Rightarrow> Bubble list \<Rightarrow> Bubble list" where
  "floodFill bs k [] visited matches = matches"
| "floodFill bs k (current # toCheck) visited matches =
     (if b_id current \<in> visited then floodFill bs k toCheck visited matches
      else if b_color current = k
        then floodFill bs k
               (rev (filter (\<lambda>b. b_active b \<and> \<not> b_isFloating b
                                \<and> b_id b \<notin> insert (b_id current) visited
                                \<and> isNeighbor current b) bs) @ toCheck)
               (insert (b_id current) visited) (matches @ [current])
        else floodFill bs k toCheck (insert (b_id current) visited) matches)"
  by pat_completeness auto
termination
proof (relation "inv_image (less_than <*lex*> less_than)
         (\<lambda>(bs, k, toCheck, visited, matches).
            (card (b_id ` (set bs \<union> set toCheck) - visited), length toCheck))",
       goal_cases)
  case 1
  show ?case by (intro wf_inv_image wf_lex_prod wf_less_than)
next
  case (2 bs k current toCheck visited matches)
  have "card (b_id ` (set bs \<union> set toCheck) - visited)
          \<le> card (b_id ` (set bs \<union> set (current # toCheck)) - visited)"
    by (rule card_mono) auto
  then show ?case by auto
next
  case (3 bs k current toCheck visited matches)
  let ?new = "rev (filter (\<lambda>b. b_active b \<and> \<not> b_isFloating b
                                \<and> b_id b \<notin> insert (b_id current) visited
                                \<and> isNeighbor current b) bs)"
  have "b_id ` (set bs \<union> set (?new @ toCheck)) - insert (b_id current) visited
          \<subset> b_id ` (set bs \<union> set (current # toCheck)) - visited"
    using 3(1) by auto
  then have "card (b_id ` (set bs \<union> set (?new @ toCheck)) - insert (b_id current) visited)
          < card (b_id ` (set bs \<union> set (current # toCheck)) - visited)"
    by (intro psubset_card_mono) auto
  then show ?case by simp
next
  case (4 bs k current toCheck visited matches)
  have "b_id ` (set bs \<union> set toCheck) - insert (b_id current) visited
          \<subset> b_id ` (set bs \<union> set (current # toCheck)) - visited"
    using 4(1) by auto
  then have "card (b_id ` (set bs \<union> set toCheck) - insert (b_id current) visited)
          < card (b_id ` (set bs \<union> set (current # toCheck)) - visited)"
    by (intro psubset_card_mono) auto
  then show ?case by simp
qed

definition triggerQuiz :: "Bubble list \<Rightarrow> GameState \<Rightarrow> GameState" where
  "triggerQuiz matches st = st\<lparr>isQuizActiveRef := True, pendingMatches := matches\<rparr>"

text \<open>The list \<open>matches\<close> that \<open>checkMatches\<close> builds: the loop from its initial state.\<close>

definition findMatches :: "Bubble list \<Rightarrow> Bubble \<Rightarrow> Bubble list" where
  "findMatches bs startBubble = floodFill bs (b_color startBubble) [startBubble] {} []"

definition checkMatches :: "Bubble \<Rightarrow> GameState \<Rightarrow> bool \<times> GameState" where
  "checkMatches startBubble st =
     (let matches = findMatches (bubbles st) startBubble
      in if length matches \<ge> 3 then (True, triggerQuiz matches st) else (False, st))"

subsection \<open>Orphan detection\<close>

text \<open>
  The loop of \<open>findFloatingBubbles\<close>; the list is the part of \<open>queue\<close> from \<open>head\<close> on,
  and \<open>conn\<close> is the set \<open>connected\<close> of ids.
\<close>

function (sequential) spread :: "Bubble list \<Rightarrow> Bubble list \<Rightarrow> string set \<Rightarrow> string set" where
  "spread bs [] conn = conn"
| "spread bs (cur # queue) conn =
     (let neighbors = filter (\<lambda>b. b_active b \<and> \<not> b_isFloating b \<and> b_id b \<notin> conn
                                   \<and> isNeighbor cur b) bs
      in spread bs (queue @ neighbors) (conn \<union> b_id ` set neighbors))"
  by pat_completeness auto
termination
proof (relation "inv_image (less_than <*lex*> less_than)
         (\<lambda>(bs, queue, conn). (card (b_id ` set bs - conn), length queue))",
       goal_cases)
  case 1
  show ?case by (intro wf_inv_image wf_lex_prod wf_less_than)
next
  case (2 bs cur queue conn x)
  show ?case
  proof (cases "x = []")
    case True
    then show ?thesis by simp
  next
    case False
    then obtain n where n: "n \<in> set x" by (cases x) auto
    with 2 have "n \<in> set bs" "b_id n \<notin> conn" by auto
    then have "b_id ` set bs - (conn \<union> b_id ` set x) \<subset> b_id ` set bs - conn"
      using n by auto
    then have "card (b_id ` set bs - (conn \<union> b_id ` set x)) < card (b_id ` set bs - conn)"
      by (intro psubset_card_mono) auto
    then show ?thesis by simp
  qed
qed

definition findFloatingBubbles :: "Bubble list \<Rightarrow> Bubble list" where
  "findFloatingBubbles allBubbles =
     (let queue = filter (\<lambda>b. b_row b = 0 \<and> b_active b \<and> \<not> b_isFloating b) allBubbles;
          conn = spread allBubbles queue (b_id ` set queue)
      in filter (\<lambda>b. b_active b \<and> \<not> b_isFloating b \<and> b_id b \<notin> conn) allBubbles)"

subsection \<open>Resolving a pending match\<close>

text \<open>
  \<open>pendingMatches.forEach(b => { b.active = false; b.popTime = performance.now(); ... })\<close>
  writes to the objects of the board that the pending list refers to.
\<close>

definition popMatches :: "real \<Rightarrow> Bubble list \<Rightarrow> Bubble list \<Rightarrow> Bubble list" where
  "popMatches t pending bs =
     map (\<lambda>b. if b_id b \<in> b_id ` set pending
              then b\<lparr>b_active := False, b_popTime := Some t\<rparr> else b) bs"

text \<open>
  \<open>floating.forEach(...)\<close>, where \<open>floating\<close> is a filter of the board: the bubbles of
  the board that are in it are marked in board order, each taking two draws.
\<close>

fun floatAway :: "Bubble list \<Rightarrow> (nat \<Rightarrow> real) \<Rightarrow> nat \<Rightarrow> Bubble list \<Rightarrow> Bubble list \<times> nat" where
  "floatAway floating r i [] = ([], i)"
| "floatAway floating r i (b # bs) =
     (if b \<in> set floating
      then let rest = floatAway floating r (i + 2) bs
           in (b\<lparr>b_isFloating := True, b_vx := Some ((r i - 0.5) * 6),
                  b_vy := Some (- 3 - r (i + 1) * 3)\<rparr> # fst rest, snd rest)
      else let rest = floatAway floating r i bs in (b # fst rest, snd rest))"

text \<open>
  The block \<open>if (awarded && userProfile) { ... }\<close> of \<open>completeMatch\<close>, for the profile's
  difficulty \<open>d\<close>. Particles, sounds and floating texts are not part of the state; the
  draws they make (75 for each explosion, one for the pop sound) advance the index.
\<close>

definition awardMatch :: "Env \<Rightarrow> Difficulty \<Rightarrow> GameState \<Rightarrow> GameState \<times> nat" where
  "awardMatch env d st =
     (let targetColor = (case pendingMatches st of [] \<Rightarrow> Red | b # _ \<Rightarrow> b_color b);
          basePoints = points targetColor;
          points0 = fold (\<lambda>b p. p + basePoints) (pendingMatches st) 0;
          board1 = popMatches (now env) (pendingMatches st) (bubbles st);
          i1 = 75 * length (pendingMatches st) + 1;
          floating = findFloatingBubbles board1;
          marked = (if length floating > 0 then floatAway floating (rnd env) i1 board1
                    else (board1, i1));
          points1 = (if length floating > 0
                     then points0 + int (length floating) * basePoints * 2 else points0);
          score1 = scoreRef st + (points1 + 500);
          st1 = st\<lparr>bubbles := fst marked, scoreRef := score1\<rparr>
      in if d \<noteq> Infinity \<and> \<not> hasWonRef st \<and> score1 \<ge> winScore d
         then (st1\<lparr>hasWonRef := True, gameWon := True, isPaused := True\<rparr>, snd marked)
         else (st1, snd marked))"

definition completeMatch :: "Env \<Rightarrow> bool \<Rightarrow> GameState \<Rightarrow> GameState" where
  "completeMatch env awarded st =
     (let res = (case userProfile st of
                   Some d \<Rightarrow> if awarded then awardMatch env d st else (st, 0)
                 | None \<Rightarrow> (st, 0));
          st2 = (fst res)\<lparr>isQuizActiveRef := False, pendingMatches := []\<rparr>;
          activeCount = length (filter (\<lambda>b. b_active b \<and> \<not> b_isFloating b) (bubbles st2))
      in case userProfile st of
           Some d \<Rightarrow>
             if activeCount = 0
             then fst (initGrid env (if canvasWidth env = 0 then 1280 else canvasWidth env)
                         d st2 (snd res))
             else st2
         | None \<Rightarrow> st2)"

definition skipQuiz :: "Env \<Rightarrow> GameState \<Rightarrow> GameState" where
  "skipQuiz env st = completeMatch env True st"

subsection \<open>Snapping the projectile to a cell\<close>

text \<open>The best cell so far of the snap scan; no distance yet is \<open>bestDist = Infinity\<close>.\<close>

record Best =
  bestDist :: "real option"
  bestRow :: nat
  bestCol :: nat
  bestX :: real
  bestY :: real

definition snapCell ::
  "nat \<Rightarrow> real \<Rightarrow> Bubble list \<Rightarrow> real \<times> real \<Rightarrow> nat \<Rightarrow> nat \<Rightarrow> Best \<Rightarrow> Best" where
  "snapCell cols width bs ball r c best =
     (let pos = getBubblePos cols (int r) (int c) width
      in if list_ex (\<lambda>b. b_active b \<and> \<not> b_isFloating b \<and> b_row b = int r \<and> b_col b = int c) bs
         then best
         else
           let dist = sqrt ((fst ball - fst pos)\<^sup>2 + (snd ball - snd pos)\<^sup>2)
           in if (case bestDist best of None \<Rightarrow> True | Some d \<Rightarrow> dist < d)
              then \<lparr>bestDist = Some dist, bestRow = r, bestCol = c,
                    bestX = fst pos, bestY = snd pos\<rparr>
              else best)"

definition snapScan :: "nat \<Rightarrow> real \<Rightarrow> Bubble list \<Rightarrow> real \<times> real \<Rightarrow> Best" where
  "snapScan cols width bs ball =
     fold (\<lambda>r. fold (snapCell cols width bs ball r)
                  [0 ..< (if js_rem (int r) 2 \<noteq> 0 then cols - 1 else cols)])
       [0 ..< GRID_ROWS + 10]
       \<lparr>bestDist = None, bestRow = 0, bestCol = 0, bestX = 0, bestY = 0\<rparr>"

text \<open>The block \<open>if (collision) { ... }\<close> of the frame callback.\<close>

definition snapProjectile :: "Env \<Rightarrow> GameState \<Rightarrow> GameState" where
  "snapProjectile env st =
     (let best = snapScan (gridColsRef st) (canvasWidth env) (bubbles st) (ballPos st);
          newB = newBubble (toString (bestRow best) @ ''-'' @ toString (bestCol best) @ ''-''
                              @ toString (dateNow env))
                   (int (bestRow best)) (int (bestCol best)) (bestX best, bestY best)
                   (currentAmmo st);
          st1 = st\<lparr>isFlying := False, bubbles := bubbles st @ [newB]\<rparr>;
          st2 = snd (checkMatches newB st1);
          st3 = (if b_y newB > canvasHeight env - SLINGSHOT_BOTTOM_OFFSET - 80
                 then st2\<lparr>gameOver := True\<rparr> else st2);
          avail = uniq (map b_color (filter (\<lambda>b. b_active b \<and> \<not> b_isFloating b) (bubbles st3)))
      in st3\<lparr>currentAmmo := nextAmmo st,
             nextAmmo := (if length avail > 0 then pick avail (rnd env 0) else Red),
             ballPos := anchorPos st, ballVel := (0, 0)\<rparr>)"

section \<open>Specification notions\<close>

text \<open>A bubble that is part of the live board: active and not floating.\<close>

definition settled :: "Bubble \<Rightarrow> bool" where
  "settled b \<longleftrightarrow> b_active b \<and> \<not> b_isFloating b"

text \<open>
  The maximal same-colour connected cluster of \<open>s\<close>: \<open>s\<close> and every settled bubble of the
  board with the colour of \<open>s\<close> that a chain of adjacent such bubbles links to \<open>s\<close>.
\<close>

inductive_set cluster :: "Bubble list \<Rightarrow> Bubble \<Rightarrow> Bubble set" for bs :: "Bubble list" and s :: Bubble where
  start: "s \<in> cluster bs s"
| step: "a \<in> cluster bs s \<Longrightarrow> b \<in> set bs \<Longrightarrow> settled b \<Longrightarrow> b_color b = b_color s
           \<Longrightarrow> isNeighbor a b \<Longrightarrow> b \<in> cluster bs s"

text \<open>
  The settled bubbles with an adjacency path, through settled bubbles of any colour, from
  a settled bubble of row 0.
\<close>

inductive_set ceilingConnected :: "Bubble list \<Rightarrow> Bubble set" for bs :: "Bubble list" where
  ceiling: "b \<in> set bs \<Longrightarrow> settled b \<Longrightarrow> b_row b = 0 \<Longrightarrow> b \<in> ceilingConnected bs"
| link: "a \<in> ceilingConnected bs \<Longrightarrow> b \<in> set bs \<Longrightarrow> settled b \<Longrightarrow> isNeighbor a b
           \<Longrightarrow> b \<in> ceilingConnected bs"

text \<open>No two settled bubbles share a cell.\<close>

definition cellsUnique :: "Bubble list \<Rightarrow> bool" where
  "cellsUnique bs = distinct (map (\<lambda>b. (b_row b, b_col b)) (filter settled bs))"

text \<open>
  A game in play on a given board with a given pending list, for concrete states: a
  profile of difficulty \<open>Easy\<close>, five columns, nothing in flight, score 0, last drop
  at time 0.
\<close>

definition playing :: "Bubble list \<Rightarrow> Bubble list \<Rightarrow> GameState" where
  "playing bs pending =
     \<lparr>bubbles = bs, pendingMatches = pending, isQuizActiveRef = (pending \<noteq> []),
      scoreRef = 0, lastDropTimeRef = 0, hasWonRef = False, gameWon = False,
      gameWonSeen = False, gameOver = False, isPaused = False, gridColsRef = 5,
      userProfile = Some Easy, currentAmmo = Red, nextAmmo = Blue, isFlying = False,
      isPinching = False, ballPos = (0, 0), ballVel = (0, 0), anchorPos = (0, 0)\<rparr>"

text \<open>
  An environment for concrete runs: the clock reads \<open>t\<close>, every draw is 1/2, and the
  canvas is 250 wide and 1000 high.
\<close>

definition steady :: "real \<Rightarrow> Env" where
  "steady t = \<lparr>now = t, dateNow = 1000, canvasWidth = 250, canvasHeight = 1000,
               shuffled = COLOR_KEYS, shuffleDraws = 0, rnd = (\<lambda>_. 1/2)\<rparr>"

text \<open>
  \<open>b'\<close> is \<open>b\<close> with the same id, cell, colour and active flag, and is floating iff \<open>b\<close>
  was floating or is an orphan.
\<close>

definition sameButFloat :: "(Bubble \<Rightarrow> bool) \<Rightarrow> Bubble \<Rightarrow> Bubble \<Rightarrow> bool" where
  "sameButFloat orphan b b' \<longleftrightarrow>
     b_id b' = b_id b \<and> b_row b' = b_row b \<and> b_col b' = b_col b \<and> b_color b' = b_color b
     \<and> b_active b' = b_active b \<and> (b_isFloating b' \<longleftrightarrow> b_isFloating b \<or> orphan b)"

section \<open>Adjacency\<close>

lemma js_rem_2_odd: "js_rem r 2 \<noteq> 0 \<longleftrightarrow> odd r"
  unfolding js_rem_def sgn_if by (simp; presburger)

text \<open>
  C1 (as stated, refuted). With the parity taken from the lower-row cell the rule is not
  the one of \<open>isNeighbor\<close>, whichever cell "lower" means: for the smaller row index the
  pair (2,1), (1,0) differs, for the larger row index the pair (1,0), (2,1) differs.
\<close>

theorem isNeighbor_lower_row_counterexample:
  "isNeighbor (cell ''a'' 2 1 Red) (cell ''b'' 1 0 Red)
     \<noteq> spec_areNeighbors min (cell ''a'' 2 1 Red) (cell ''b'' 1 0 Red)
   \<and> isNeighbor (cell ''a'' 1 0 Red) (cell ''b'' 2 1 Red)
     \<noteq> spec_areNeighbors max (cell ''a'' 1 0 Red) (cell ''b'' 2 1 Red)"
  by (simp add: isNeighbor_def spec_areNeighbors_def cell_def js_rem_def)

text \<open>
  C1 (amended). \<open>isNeighbor a b\<close> follows the parity rule with the parity of the row of
  its first argument \<open>a\<close>: never when \<open>|dr| > 1\<close>; when \<open>dr = 0\<close>, iff \<open>|dc| = 1\<close>; when
  \<open>dr\<close> is +1 or -1 and \<open>a\<close>'s row is odd, iff \<open>dc\<close> is 0 or 1; when \<open>a\<close>'s row is even,
  iff \<open>dc\<close> is -1 or 0.
\<close>

theorem isNeighbor_first_row_parity:
  "isNeighbor a b =
     (if \<bar>b_row b - b_row a\<bar> > 1 then False
      else if b_row b - b_row a = 0 then \<bar>b_col b - b_col a\<bar> = 1
      else if odd (b_row a) then b_col b - b_col a \<in> {0, 1}
      else b_col b - b_col a \<in> {-1, 0})"
  by (auto simp: isNeighbor_def Let_def js_rem_2_odd)

theorem isNeighbor_first_row_parity_witness:
  "isNeighbor (cell ''a'' 2 1 Red) (cell ''b'' 1 0 Red)
   \<and> \<not> isNeighbor (cell ''a'' 1 1 Red) (cell ''b'' 2 0 Red)"
  using isNeighbor_first_row_parity [of "cell ''a'' 2 1 Red" "cell ''b'' 1 0 Red"]
        isNeighbor_first_row_parity [of "cell ''a'' 1 1 Red" "cell ''b'' 2 0 Red"]
  by (simp add: cell_def)

lemma isNeighbor_commute: "isNeighbor a b = isNeighbor b a"
proof -
  have "odd (b_row a) \<noteq> odd (b_row b)" if "\<bar>b_row b - b_row a\<bar> = 1"
    using that by presburger
  then show ?thesis
    unfolding isNeighbor_def Let_def js_rem_2_odd
    by (smt (verit, best))
qed

text \<open>
  C7. Adjacency is symmetric: \<open>isNeighbor a b = isNeighbor b a\<close> for every pair of
  (row, col) coordinates.
\<close>

theorem isNeighbor_symmetric: "isNeighbor a b = isNeighbor b a"
  by (rule isNeighbor_commute)

section \<open>Orphan detection never takes a ceiling bubble\<close>

lemma fold_invariant:
  assumes "Q a" and "\<And>x acc. x \<in> set xs \<Longrightarrow> Q acc \<Longrightarrow> Q (f x acc)"
  shows "Q (fold f xs a)"
  using assms by (induction xs arbitrary: a) auto

lemma spread_keeps: "c \<in> conn \<Longrightarrow> c \<in> spread bs queue conn"
  by (induction bs queue conn rule: spread.induct) (auto simp: Let_def)

lemma findFloatingBubbles_row:
  assumes "b \<in> set (findFloatingBubbles bs)"
  shows "b_row b \<noteq> 0"
proof
  assume r0: "b_row b = 0"
  let ?queue = "filter (\<lambda>b. b_row b = 0 \<and> b_active b \<and> \<not> b_isFloating b) bs"
  from assms have b: "b \<in> set bs" "b_active b" "\<not> b_isFloating b"
    and out: "b_id b \<notin> spread bs ?queue (b_id ` set ?queue)"
    by (auto simp: findFloatingBubbles_def Let_def)
  from b r0 have "b_id b \<in> b_id ` set ?queue" by auto
  then have "b_id b \<in> spread bs ?queue (b_id ` set ?queue)" by (rule spread_keeps)
  with out show False by contradiction
qed

lemma floatAway_cases:
  assumes "b' \<in> set (fst (floatAway fl r i bs))"
  shows "b' \<in> set bs \<or> (\<exists>b \<in> set bs. b \<in> set fl \<and> b_row b' = b_row b \<and> b_id b' = b_id b)"
  using assms
proof (induction fl r i bs rule: floatAway.induct)
  case (1 floating r i)
  then show ?case by simp
next
  case (2 floating r i b bs)
  show ?case
  proof (cases "b \<in> set floating")
    case True
    with 2 show ?thesis by (fastforce simp: Let_def)
  next
    case False
    with 2 show ?thesis by (fastforce simp: Let_def)
  qed
qed

lemma popMatches_cases:
  assumes "b' \<in> set (popMatches t pm bs)"
  shows "\<exists>b \<in> set bs. b_row b' = b_row b \<and> b_id b' = b_id b \<and> b_isFloating b' = b_isFloating b"
  using assms by (auto simp: popMatches_def)

lemma initCell_shape:
  "fst (initCell w cols pal dens dnow r row c acc) = fst acc
   \<or> (\<exists>i pos k. fst (initCell w cols pal dens dnow r row c acc)
                    = fst acc @ [newBubble i (int row) (int c) pos k])"
proof (cases "r (snd acc) < dens")
  case True
  then show ?thesis unfolding initCell_def Let_def by (simp only: if_True fst_conv) blast
next
  case False
  then show ?thesis unfolding initCell_def Let_def by (simp only: if_False fst_conv) simp
qed

lemma initCell_fresh:
  assumes "\<forall>b \<in> set (fst acc). \<not> b_isFloating b"
  shows "\<forall>b \<in> set (fst (initCell w cols pal dens dnow r row c acc)). \<not> b_isFloating b"
  using assms initCell_shape [of w cols pal dens dnow r row c acc]
  by (auto simp: newBubble_def)

lemma initRow_fresh:
  assumes "\<forall>b \<in> set (fst acc). \<not> b_isFloating b"
  shows "\<forall>b \<in> set (fst (initRow w cols pal dens dnow r row acc)). \<not> b_isFloating b"
  unfolding initRow_def
  by (rule fold_invariant [where Q = "\<lambda>acc. \<forall>b \<in> set (fst acc). \<not> b_isFloating b"])
     (use assms initCell_fresh in blast)+

lemma initGrid_bubbles:
  "bubbles (fst (initGrid env w d st i)) =
     fst (fold (initRow w (nat (min MAX_GRID_COLS (max 5 \<lfloor>(w - 40) / (BUBBLE_RADIUS * 2.1)\<rfloor>)))
                  (take (numColors d) (shuffled env)) (density d) (dateNow env) (rnd env))
            [0 ..< initialRows d] ([], i + shuffleDraws env))"
  unfolding initGrid_def Let_def by (simp split: if_split)

lemma initGrid_fresh: "\<forall>b \<in> set (bubbles (fst (initGrid env w d st i))). \<not> b_isFloating b"
  unfolding initGrid_bubbles
  by (rule fold_invariant [where Q = "\<lambda>acc. \<forall>b \<in> set (fst acc). \<not> b_isFloating b"])
     (use initRow_fresh in auto)


lemma awardMatch_bubbles:
  "bubbles (fst (awardMatch env d st)) =
     (let board1 = popMatches (now env) (pendingMatches st) (bubbles st);
          floating = findFloatingBubbles board1
      in if length floating > 0
         then fst (floatAway floating (rnd env) (75 * length (pendingMatches st) + 1) board1)
         else board1)"
  unfolding awardMatch_def Let_def by (simp split: if_split)

lemma completeMatch_bubbles:
  "bubbles (completeMatch env awarded st) = bubbles st
   \<or> (\<exists>d. userProfile st = Some d \<and> awarded
           \<and> bubbles (completeMatch env awarded st) = bubbles (fst (awardMatch env d st)))
   \<or> (\<exists>w d st2 i. bubbles (completeMatch env awarded st) = bubbles (fst (initGrid env w d st2 i)))"
proof (cases "userProfile st")
  case None
  then show ?thesis unfolding completeMatch_def Let_def by simp
next
  case (Some d)
  then show ?thesis unfolding completeMatch_def Let_def
    by (cases awarded) (simp_all split: if_split, blast+)
qed

lemma awardMatch_ceiling:
  assumes "b \<in> set (bubbles (fst (awardMatch env d st)))" "b_row b = 0" "b_isFloating b"
  shows "\<exists>b0 \<in> set (bubbles st). b_id b0 = b_id b \<and> b_row b0 = 0 \<and> b_isFloating b0"
proof -
  let ?board1 = "popMatches (now env) (pendingMatches st) (bubbles st)"
  let ?fl = "findFloatingBubbles ?board1"
  let ?i1 = "75 * length (pendingMatches st) + 1"
  have "b \<in> set ?board1 \<or> b \<in> set (fst (floatAway ?fl (rnd env) ?i1 ?board1))"
    using assms(1) unfolding awardMatch_bubbles Let_def by (simp split: if_splits)
  then have "b \<in> set ?board1"
  proof
    assume "b \<in> set (fst (floatAway ?fl (rnd env) ?i1 ?board1))"
    from floatAway_cases [OF this] show ?thesis
      using findFloatingBubbles_row assms(2) by fastforce
  qed
  from popMatches_cases [OF this] show ?thesis using assms(2,3) by auto
qed

text \<open>
  C10. No bubble of row 0 is returned by \<open>findFloatingBubbles\<close>, for any board; and a
  bubble of row 0 that is floating after \<open>completeMatch\<close> was already floating before
  it: \<open>completeMatch\<close> never marks a ceiling-row bubble as floating.
\<close>

theorem ceiling_never_floats:
  "(\<forall>b \<in> set (findFloatingBubbles bs). b_row b \<noteq> 0)
   \<and> (\<forall>b \<in> set (bubbles (completeMatch env awarded st)).
         b_row b = 0 \<and> b_isFloating b \<longrightarrow>
         (\<exists>b0 \<in> set (bubbles st). b_id b0 = b_id b \<and> b_row b0 = 0 \<and> b_isFloating b0))"
proof (intro conjI ballI impI)
  fix b assume "b \<in> set (findFloatingBubbles bs)"
  then show "b_row b \<noteq> 0" by (rule findFloatingBubbles_row)
next
  fix b
  assume b: "b \<in> set (bubbles (completeMatch env awarded st))"
    and r: "b_row b = 0 \<and> b_isFloating b"
  from completeMatch_bubbles [of env awarded st]
  consider "b \<in> set (bubbles st)"
    | d where "b \<in> set (bubbles (fst (awardMatch env d st)))"
    | w d st2 i where "b \<in> set (bubbles (fst (initGrid env w d st2 i)))"
    using b by metis
  then show "\<exists>b0 \<in> set (bubbles st). b_id b0 = b_id b \<and> b_row b0 = 0 \<and> b_isFloating b0"
  proof cases
    case 1
    with r show ?thesis by blast
  next
    case 2
    with r show ?thesis using awardMatch_ceiling by blast
  next
    case 3
    with r show ?thesis using initGrid_fresh by blast
  qed
qed

theorem ceiling_never_floats_witness:
  "set (findFloatingBubbles [cell ''a'' 0 0 Red, cell ''c'' 2 0 Blue]) = {cell ''c'' 2 0 Blue}
   \<and> b_row (cell ''c'' 2 0 Blue) \<noteq> 0
   \<and> (cell ''f'' 0 4 Green)\<lparr>b_isFloating := True\<rparr>
        \<in> set (bubbles (completeMatch (steady 1000) False
             (playing [cell ''a'' 0 0 Red, (cell ''f'' 0 4 Green)\<lparr>b_isFloating := True\<rparr>] [])))
   \<and> b_row ((cell ''f'' 0 4 Green)\<lparr>b_isFloating := True\<rparr>) = 0
   \<and> b_isFloating ((cell ''f'' 0 4 Green)\<lparr>b_isFloating := True\<rparr>)
   \<and> (\<exists>b0 \<in> set (bubbles (playing [cell ''a'' 0 0 Red, (cell ''f'' 0 4 Green)\<lparr>b_isFloating := True\<rparr>] [])).
          b_id b0 = b_id ((cell ''f'' 0 4 Green)\<lparr>b_isFloating := True\<rparr>)
          \<and> b_row b0 = 0 \<and> b_isFloating b0)"
proof -
  let ?f = "(cell ''f'' 0 4 Green)\<lparr>b_isFloating := True\<rparr>"
  let ?st = "playing [cell ''a'' 0 0 Red, ?f] []"
  have 1: "set (findFloatingBubbles [cell ''a'' 0 0 Red, cell ''c'' 2 0 Blue]) = {cell ''c'' 2 0 Blue}"
    "b_row (cell ''c'' 2 0 Blue) \<noteq> 0"
    using ceiling_never_floats [of "[cell ''a'' 0 0 Red, cell ''c'' 2 0 Blue]"]
    by (simp_all add: findFloatingBubbles_def cell_def isNeighbor_def js_rem_def)
  have 2: "bubbles (completeMatch (steady 1000) False ?st) = [cell ''a'' 0 0 Red, ?f]"
    by (simp add: completeMatch_def playing_def cell_def)
  have 3: "?f \<in> set (bubbles (completeMatch (steady 1000) False ?st))"
    unfolding 2 by simp
  have 4: "b_row ?f = 0" "b_isFloating ?f" by (simp_all add: cell_def)
  from ceiling_never_floats [of "[]" "steady 1000" False ?st] 3 4
  have 5: "\<exists>b0 \<in> set (bubbles ?st). b_id b0 = b_id ?f \<and> b_row b0 = 0 \<and> b_isFloating b0"
    by blast
  show ?thesis using 1 3 4 5 by blast
qed

section \<open>Colour policy\<close>

lemma pick_member:
  assumes "0 \<le> u" "u < 1" "xs \<noteq> []"
  shows "pick xs u \<in> set xs"
proof -
  have n: "0 < real (length xs)" using assms(3) by simp
  have "u * real (length xs) < real (length xs)" using assms(2) n by simp
  then have "\<lfloor>u * real (length xs)\<rfloor> < int (length xs)" by (simp add: floor_less_iff)
  moreover have "0 \<le> \<lfloor>u * real (length xs)\<rfloor>" using assms(1) by simp
  ultimately have "nat \<lfloor>u * real (length xs)\<rfloor> < length xs" by linarith
  then show ?thesis unfolding pick_def by (rule nth_mem)
qed

lemma pick_filter:
  assumes "0 \<le> u" "u < 1" "filter P xs \<noteq> []"
  shows "P (pick (filter P xs) u)"
  using pick_member [OF assms] by simp

lemma uniq_set: "set (uniq xs) = set xs"
  by (simp add: uniq_def)

lemma getNextBubbleColor_cases:
  assumes "\<forall>j. 0 \<le> r j \<and> r j < 1"
  shows "(\<exists>b \<in> set bs. b_active b) \<Longrightarrow> (\<exists>c \<in> set COLOR_KEYS. c \<notin> set forbidden)
           \<Longrightarrow> fst (getNextBubbleColor bs forbidden d r i) \<notin> set forbidden"
    and "(\<forall>b \<in> set bs. \<not> b_active b)
           \<Longrightarrow> getNextBubbleColor bs forbidden d r i = (pick COLOR_KEYS (r i), i + 1)"
proof -
  let ?act = "uniq (map b_color (filter b_active bs))"
  let ?ok = "\<lambda>c. c \<notin> set forbidden"
  {
    assume act: "\<exists>b \<in> set bs. b_active b" and pal: "\<exists>c \<in> set COLOR_KEYS. c \<notin> set forbidden"
    from act have a: "length ?act \<noteq> 0"
      using uniq_set [of "map b_color (filter b_active bs)"] by (auto simp: filter_empty_conv)
    from pal have av: "filter ?ok COLOR_KEYS \<noteq> []" by (auto simp: filter_empty_conv)
    define cand where "cand = (if length (filter ?ok ?act) = 0 then filter ?ok COLOR_KEYS
                               else filter ?ok ?act)"
    have c: "cand \<noteq> []" using av by (simp add: cand_def)
    have u: "0 \<le> r (i + 1)" "r (i + 1) < 1" using assms by auto
    have p1: "pick cand (r (i + 1)) \<notin> set forbidden"
      unfolding cand_def using pick_filter [OF u, of ?ok] av by (simp split: if_splits)
    have p2: "pick (filter ?ok COLOR_KEYS) (r (i + 1)) \<notin> set forbidden"
      using pick_filter [OF u av] .
    have "getNextBubbleColor bs forbidden d r i =
            (if r i < (if d = Infinity then 0.35 else if d = Hard then 0.1 else 0.05)
                \<and> length (filter ?ok COLOR_KEYS) > 0
             then (pick (filter ?ok COLOR_KEYS) (r (i + 1)), i + 2)
             else (pick cand (r (i + 1)), i + 2))"
      unfolding getNextBubbleColor_def Let_def cand_def [symmetric]
      using a c by (simp only: if_False length_0_conv)
    then show "fst (getNextBubbleColor bs forbidden d r i) \<notin> set forbidden"
      using p1 p2 by (simp split: if_splits)
  }
  {
    assume "\<forall>b \<in> set bs. \<not> b_active b"
    then have "filter b_active bs = []" by (simp add: filter_empty_conv)
    then show "getNextBubbleColor bs forbidden d r i = (pick COLOR_KEYS (r i), i + 1)"
      unfolding getNextBubbleColor_def Let_def by (simp add: uniq_def)
  }
qed

lemma getNextBubbleColor_from_board:
  assumes rg: "\<forall>j. 0 \<le> r j \<and> r j < 1"
    and act: "\<exists>b \<in> set bs. b_active b \<and> b_color b \<notin> set forbidden"
    and stay: "\<not> r i < (if d = Infinity then 0.35 else if d = Hard then 0.1 else 0.05)"
  shows "fst (getNextBubbleColor bs forbidden d r i)
           \<in> b_color ` {b \<in> set bs. b_active b} - set forbidden"
proof -
  let ?act = "uniq (map b_color (filter b_active bs))"
  let ?ok = "\<lambda>c. c \<notin> set forbidden"
  have sa: "set ?act = b_color ` {b \<in> set bs. b_active b}"
    by (simp add: uniq_set)
  from act have c0: "filter ?ok ?act \<noteq> []"
    unfolding filter_empty_conv sa by blast
  then have a: "length ?act \<noteq> 0" by auto
  from c0 have c: "length (filter ?ok ?act) \<noteq> 0" by simp
  have e: "getNextBubbleColor bs forbidden d r i = (pick (filter ?ok ?act) (r (i + 1)), i + 2)"
    unfolding getNextBubbleColor_def Let_def using a c stay
    by (simp only: if_False simp_thms)
  have u: "0 \<le> r (i + 1)" "r (i + 1) < 1" using rg by auto
  from pick_member [OF u c0] have "pick (filter ?ok ?act) (r (i + 1)) \<in> set (filter ?ok ?act)" .
  then show ?thesis unfolding e using sa by auto
qed

text \<open>
  C9 (as stated, refuted). On a board without an active bubble the function returns a
  palette colour at once, whatever is forbidden: with \<open>Red\<close> forbidden (so that the
  palette minus the forbidden set is not empty) and a draw of 0 it returns \<open>Red\<close>.
\<close>

theorem getNextBubbleColor_forbidden_counterexample:
  "fst (getNextBubbleColor [] [Red] Medium (\<lambda>_. 0) 0) \<in> set [Red]
   \<and> Blue \<in> set COLOR_KEYS \<and> Blue \<notin> set [Red]"
  by (simp add: getNextBubbleColor_def uniq_def pick_def COLOR_KEYS_def)

text \<open>
  C9 (amended). For draws in the range of \<open>Math.random()\<close>: on a board with at least
  one active bubble, whenever the palette minus the forbidden set is not empty the
  returned colour is not forbidden; when an active colour is not forbidden and the first
  draw does not call for a new colour, the returned colour is an active colour that is
  not forbidden; on a board with no active bubble the function returns a palette colour
  picked by its first draw, whatever is forbidden.
\<close>

theorem getNextBubbleColor_avoids_forbidden:
  assumes "\<forall>j. 0 \<le> r j \<and> r j < 1"
  shows "((\<exists>b \<in> set bs. b_active b) \<and> (\<exists>c \<in> set COLOR_KEYS. c \<notin> set forbidden)
            \<longrightarrow> fst (getNextBubbleColor bs forbidden d r i) \<notin> set forbidden)
         \<and> ((\<exists>b \<in> set bs. b_active b \<and> b_color b \<notin> set forbidden)
             \<and> \<not> r i < (if d = Infinity then 0.35 else if d = Hard then 0.1 else 0.05)
            \<longrightarrow> fst (getNextBubbleColor bs forbidden d r i)
                  \<in> b_color ` {b \<in> set bs. b_active b} - set forbidden)
         \<and> ((\<forall>b \<in> set bs. \<not> b_active b)
            \<longrightarrow> getNextBubbleColor bs forbidden d r i = (pick COLOR_KEYS (r i), i + 1))"
  using getNextBubbleColor_cases [OF assms] getNextBubbleColor_from_board [OF assms] by blast

theorem getNextBubbleColor_avoids_forbidden_witness:
  "(\<forall>j. (0::real) \<le> (\<lambda>_. 1/2) j \<and> (\<lambda>_. 1/2::real) j < 1)
   \<and> (\<exists>b \<in> set [cell ''a'' 0 0 Red]. b_active b)
   \<and> (\<exists>c \<in> set COLOR_KEYS. c \<notin> set [Red])
   \<and> fst (getNextBubbleColor [cell ''a'' 0 0 Red] [Red] Medium (\<lambda>_. 1/2) 0) = Yellow
   \<and> Yellow \<notin> set [Red]
   \<and> (\<exists>b \<in> set [cell ''a'' 0 0 Red]. b_active b \<and> b_color b \<notin> set [Blue])
   \<and> fst (getNextBubbleColor [cell ''a'' 0 0 Red] [Blue] Medium (\<lambda>_. 1/2) 0) = Red
   \<and> getNextBubbleColor [] [Yellow] Medium (\<lambda>_. 1/2) 0 = (Yellow, 1)"
proof -
  have r: "\<forall>j. (0::real) \<le> (\<lambda>_. 1/2) j \<and> (\<lambda>_. 1/2::real) j < 1" by simp
  have p: "pick COLOR_KEYS (1/2) = Yellow" by (simp add: pick_def COLOR_KEYS_def)
  from getNextBubbleColor_avoids_forbidden [OF r, of "[]" "[Yellow]" Medium 0]
  have 1: "getNextBubbleColor [] [Yellow] Medium (\<lambda>_. 1/2) 0 = (Yellow, 1)"
    using p by simp
  from getNextBubbleColor_avoids_forbidden [OF r, of "[cell ''a'' 0 0 Red]" "[Blue]" Medium 0]
  have 2: "fst (getNextBubbleColor [cell ''a'' 0 0 Red] [Blue] Medium (\<lambda>_. 1/2) 0) = Red"
    by (auto simp: cell_def)
  from getNextBubbleColor_avoids_forbidden [OF r, of "[cell ''a'' 0 0 Red]" "[Red]" Medium 0]
  show ?thesis using 1 2
    by (simp add: getNextBubbleColor_def uniq_def pick_def COLOR_KEYS_def cell_def)
qed

section \<open>The flood fill computes the cluster\<close>

text \<open>
  The invariant of the loop of \<open>checkMatches\<close>, on a board with pairwise distinct ids
  that contains the start bubble \<open>s\<close>: the matches are the visited bubbles of the
  start colour, they lie in the cluster, and every settled neighbour of a match is
  visited or still on the stack.
\<close>

definition ffInv :: "Bubble list \<Rightarrow> Bubble \<Rightarrow> Bubble list \<Rightarrow> string set \<Rightarrow> Bubble list \<Rightarrow> bool" where
  "ffInv bs s toCheck visited matches \<longleftrightarrow>
     set toCheck \<subseteq> set bs
     \<and> set matches = {b \<in> set bs. b_id b \<in> visited \<and> b_color b = b_color s}
     \<and> distinct matches
     \<and> set matches \<subseteq> cluster bs s
     \<and> (\<forall>c \<in> set toCheck. b_color c = b_color s \<longrightarrow> c \<in> cluster bs s)
     \<and> (\<forall>m \<in> set matches. \<forall>b \<in> set bs. settled b \<and> isNeighbor m b
            \<longrightarrow> b_id b \<in> visited \<or> b \<in> set toCheck)
     \<and> (b_id s \<in> visited \<or> s \<in> set toCheck)"

lemma distinct_ids_eq:
  assumes "distinct (map b_id bs)" "a \<in> set bs" "b \<in> set bs" "b_id a = b_id b"
  shows "a = b"
  using assms by (meson distinct_map inj_onD)

lemma ffInv_start:
  assumes "s \<in> set bs"
  shows "ffInv bs s [s] {} []"
  using assms by (simp add: ffInv_def cluster.start)

lemma ffInv_skip:
  assumes "ffInv bs s (current # toCheck) visited matches" "b_id current \<in> visited"
  shows "ffInv bs s toCheck visited matches"
  using assms unfolding ffInv_def by (auto 4 3)

lemma ffInv_match:
  assumes inv: "ffInv bs s (current # toCheck) visited matches"
    and d: "distinct (map b_id bs)"
    and new: "b_id current \<notin> visited" and col: "b_color current = b_color s"
  shows "ffInv bs s
           (rev (filter (\<lambda>b. b_active b \<and> \<not> b_isFloating b
                            \<and> b_id b \<notin> insert (b_id current) visited
                            \<and> isNeighbor current b) bs) @ toCheck)
           (insert (b_id current) visited) (matches @ [current])"
proof -
  let ?new = "filter (\<lambda>b. b_active b \<and> \<not> b_isFloating b
                            \<and> b_id b \<notin> insert (b_id current) visited
                            \<and> isNeighbor current b) bs"
  from inv have cur: "current \<in> set bs" and sub: "set toCheck \<subseteq> set bs"
    and m: "set matches = {b \<in> set bs. b_id b \<in> visited \<and> b_color b = b_color s}"
    and dm: "distinct matches" and mc: "set matches \<subseteq> cluster bs s"
    and tc: "\<forall>c \<in> set (current # toCheck). b_color c = b_color s \<longrightarrow> c \<in> cluster bs s"
    and cl: "\<forall>m \<in> set matches. \<forall>b \<in> set bs. settled b \<and> isNeighbor m b
            \<longrightarrow> b_id b \<in> visited \<or> b \<in> set (current # toCheck)"
    and st: "b_id s \<in> visited \<or> s \<in> set (current # toCheck)"
    unfolding ffInv_def by auto
  have curc: "current \<in> cluster bs s" using tc col by simp
  have 1: "set (rev ?new @ toCheck) \<subseteq> set bs" using sub by auto
  have 2: "set (matches @ [current])
             = {b \<in> set bs. b_id b \<in> insert (b_id current) visited \<and> b_color b = b_color s}"
    using m cur col distinct_ids_eq [OF d _ cur] by auto
  have 3: "distinct (matches @ [current])" using dm m new by auto
  have 4: "set (matches @ [current]) \<subseteq> cluster bs s" using mc curc by auto
  have 5: "\<forall>c \<in> set (rev ?new @ toCheck). b_color c = b_color s \<longrightarrow> c \<in> cluster bs s"
  proof (intro ballI impI)
    fix c assume c: "c \<in> set (rev ?new @ toCheck)" and cc: "b_color c = b_color s"
    show "c \<in> cluster bs s"
    proof (cases "c \<in> set toCheck")
      case True
      with tc cc show ?thesis by simp
    next
      case False
      with c have "c \<in> set bs" "settled c" "isNeighbor current c"
        by (auto simp: settled_def)
      with curc cc show ?thesis by (auto intro: cluster.step)
    qed
  qed
  have 6: "\<forall>m \<in> set (matches @ [current]). \<forall>b \<in> set bs. settled b \<and> isNeighbor m b
            \<longrightarrow> b_id b \<in> insert (b_id current) visited \<or> b \<in> set (rev ?new @ toCheck)"
  proof (intro ballI impI)
    fix m b assume mm: "m \<in> set (matches @ [current])" and b: "b \<in> set bs"
      and nb: "settled b \<and> isNeighbor m b"
    show "b_id b \<in> insert (b_id current) visited \<or> b \<in> set (rev ?new @ toCheck)"
    proof (cases "m = current")
      case True
      with b nb show ?thesis by (auto simp: settled_def)
    next
      case False
      with mm have "m \<in> set matches" by simp
      with cl b nb have "b_id b \<in> visited \<or> b \<in> set (current # toCheck)" by blast
      then show ?thesis by auto
    qed
  qed
  have 7: "b_id s \<in> insert (b_id current) visited \<or> s \<in> set (rev ?new @ toCheck)"
    using st by auto
  show ?thesis unfolding ffInv_def using 1 2 3 4 5 6 7 by blast
qed

lemma ffInv_nomatch:
  assumes inv: "ffInv bs s (current # toCheck) visited matches"
    and d: "distinct (map b_id bs)"
    and new: "b_id current \<notin> visited" and col: "b_color current \<noteq> b_color s"
  shows "ffInv bs s toCheck (insert (b_id current) visited) matches"
proof -
  from inv have cur: "current \<in> set bs" and sub: "set toCheck \<subseteq> set bs"
    and m: "set matches = {b \<in> set bs. b_id b \<in> visited \<and> b_color b = b_color s}"
    and dm: "distinct matches" and mc: "set matches \<subseteq> cluster bs s"
    and tc: "\<forall>c \<in> set (current # toCheck). b_color c = b_color s \<longrightarrow> c \<in> cluster bs s"
    and cl: "\<forall>m \<in> set matches. \<forall>b \<in> set bs. settled b \<and> isNeighbor m b
            \<longrightarrow> b_id b \<in> visited \<or> b \<in> set (current # toCheck)"
    and st: "b_id s \<in> visited \<or> s \<in> set (current # toCheck)"
    unfolding ffInv_def by auto
  have 2: "set matches
             = {b \<in> set bs. b_id b \<in> insert (b_id current) visited \<and> b_color b = b_color s}"
    using m col distinct_ids_eq [OF d _ cur] by auto
  have 5: "\<forall>c \<in> set toCheck. b_color c = b_color s \<longrightarrow> c \<in> cluster bs s"
    using tc by simp
  have 6: "\<forall>m \<in> set matches. \<forall>b \<in> set bs. settled b \<and> isNeighbor m b
            \<longrightarrow> b_id b \<in> insert (b_id current) visited \<or> b \<in> set toCheck"
    using cl by auto
  have 7: "b_id s \<in> insert (b_id current) visited \<or> s \<in> set toCheck"
    using st col by auto
  show ?thesis unfolding ffInv_def using sub 2 dm mc 5 6 7 by blast
qed

lemma ffInvE:
  assumes "ffInv bs s toCheck visited matches"
  obtains "set toCheck \<subseteq> set bs"
    and "set matches = {b \<in> set bs. b_id b \<in> visited \<and> b_color b = b_color s}"
    and "distinct matches"
    and "set matches \<subseteq> cluster bs s"
    and "\<forall>c \<in> set toCheck. b_color c = b_color s \<longrightarrow> c \<in> cluster bs s"
    and "\<forall>m \<in> set matches. \<forall>b \<in> set bs. settled b \<and> isNeighbor m b
            \<longrightarrow> b_id b \<in> visited \<or> b \<in> set toCheck"
    and "b_id s \<in> visited \<or> s \<in> set toCheck"
  using assms unfolding ffInv_def by (elim conjE) (rule that)

lemma ffInv_final:
  assumes inv: "ffInv bs s [] visited matches" and s: "s \<in> set bs"
  shows "set matches = cluster bs s \<and> distinct matches"
proof -
  from inv obtain
    m: "set matches = {b \<in> set bs. b_id b \<in> visited \<and> b_color b = b_color s}"
    and dm: "distinct matches"
    and mc: "set matches \<subseteq> cluster bs s"
    and cl0: "\<forall>m \<in> set matches. \<forall>b \<in> set bs. settled b \<and> isNeighbor m b
                       \<longrightarrow> b_id b \<in> visited \<or> b \<in> set []"
    and st0: "b_id s \<in> visited \<or> s \<in> set []"
    by (rule ffInvE)
  from st0 have st: "b_id s \<in> visited" by simp
  have "c \<in> set matches" if "c \<in> cluster bs s" for c
    using that
  proof (induction rule: cluster.induct)
    case start
    show ?case using s st by (simp add: m)
  next
    case (step a b)
    from cl0 step(5,2,3,6) have "b_id b \<in> visited \<or> b \<in> set []" by blast
    then have "b_id b \<in> visited" by simp
    with step(2,4) show ?case by (simp add: m)
  qed
  then have "cluster bs s \<subseteq> set matches" by blast
  with mc have "set matches = cluster bs s" by (rule subset_antisym)
  with dm show ?thesis by simp
qed

lemma floodFill_inv:
  assumes "distinct (map b_id bs)" "s \<in> set bs" "k = b_color s"
    "ffInv bs s toCheck visited matches"
  shows "set (floodFill bs k toCheck visited matches) = cluster bs s
         \<and> distinct (floodFill bs k toCheck visited matches)"
  using assms
proof (induction bs k toCheck visited matches rule: floodFill.induct)
  case (1 bs k visited matches)
  then show ?case using ffInv_final by simp
next
  case (2 bs k current toCheck visited matches)
  show ?case
  proof (cases "b_id current \<in> visited")
    case True
    with 2 ffInv_skip show ?thesis by simp
  next
    case False
    show ?thesis
    proof (cases "b_color current = k")
      case True
      with False 2(2) [OF False True "2.prems"(1,2,3)] "2.prems" ffInv_match
      show ?thesis by simp
    next
      case nc: False
      with False 2(3) [OF False nc "2.prems"(1,2,3)] "2.prems" ffInv_nomatch
      show ?thesis by simp
    qed
  qed
qed

lemma findMatches_cluster:
  assumes "distinct (map b_id bs)" "s \<in> set bs"
  shows "set (findMatches bs s) = cluster bs s"
    and "distinct (findMatches bs s)"
  unfolding findMatches_def
  using floodFill_inv [OF assms refl ffInv_start [OF assms(2)]] by auto

lemma cluster_color: "b \<in> cluster bs s \<Longrightarrow> b_color b = b_color s"
  by (induction rule: cluster.induct) auto

lemma demo_matches:
  "findMatches [cell ''a'' 0 0 Red, cell ''b'' 0 1 Red, cell ''c'' 0 2 Red, cell ''d'' 0 3 Blue]
     (cell ''c'' 0 2 Red) = [cell ''c'' 0 2 Red, cell ''b'' 0 1 Red, cell ''a'' 0 0 Red]"
  by (simp add: findMatches_def cell_def isNeighbor_def js_rem_def)

lemma demo_matches_single:
  "findMatches [cell ''a'' 0 0 Red, cell ''b'' 0 1 Red, cell ''c'' 0 2 Red, cell ''d'' 0 3 Blue]
     (cell ''d'' 0 3 Blue) = [cell ''d'' 0 3 Blue]"
  by (simp add: findMatches_def cell_def isNeighbor_def js_rem_def)

text \<open>
  C2. On a board whose bubbles have pairwise distinct ids and that contains the start
  bubble \<open>s\<close>, every bubble of the list \<open>matches\<close> built by \<open>checkMatches\<close> has the
  colour of \<open>s\<close>, and no active, non-floating bubble of that colour adjacent to a
  member is left out.
\<close>

theorem findMatches_pure_and_maximal:
  assumes "distinct (map b_id bs)" and "s \<in> set bs"
  shows "(\<forall>m \<in> set (findMatches bs s). b_color m = b_color s)
         \<and> (\<forall>m \<in> set (findMatches bs s). \<forall>b \<in> set bs.
               b_active b \<and> \<not> b_isFloating b \<and> b_color b = b_color s
               \<and> (isNeighbor m b \<or> isNeighbor b m)
               \<longrightarrow> b \<in> set (findMatches bs s))"
proof (intro conjI ballI impI)
  fix m assume "m \<in> set (findMatches bs s)"
  then show "b_color m = b_color s"
    using findMatches_cluster(1) [OF assms] cluster_color by blast
next
  fix m b
  assume m: "m \<in> set (findMatches bs s)" and b: "b \<in> set bs"
    and h: "b_active b \<and> \<not> b_isFloating b \<and> b_color b = b_color s
            \<and> (isNeighbor m b \<or> isNeighbor b m)"
  from m have mc: "m \<in> cluster bs s" using findMatches_cluster(1) [OF assms] by simp
  from h have "isNeighbor m b" using isNeighbor_commute by blast
  with mc b h have "b \<in> cluster bs s" by (auto intro: cluster.step simp: settled_def)
  then show "b \<in> set (findMatches bs s)" using findMatches_cluster(1) [OF assms] by simp
qed

theorem findMatches_pure_and_maximal_witness:
  "distinct (map b_id [cell ''a'' 0 0 Red, cell ''b'' 0 1 Red, cell ''c'' 0 2 Red, cell ''d'' 0 3 Blue])
   \<and> cell ''c'' 0 2 Red \<in> set [cell ''a'' 0 0 Red, cell ''b'' 0 1 Red, cell ''c'' 0 2 Red, cell ''d'' 0 3 Blue]
   \<and> cell ''b'' 0 1 Red \<in> set (findMatches [cell ''a'' 0 0 Red, cell ''b'' 0 1 Red, cell ''c'' 0 2 Red, cell ''d'' 0 3 Blue] (cell ''c'' 0 2 Red))
   \<and> isNeighbor (cell ''b'' 0 1 Red) (cell ''a'' 0 0 Red)
   \<and> cell ''a'' 0 0 Red \<in> set (findMatches [cell ''a'' 0 0 Red, cell ''b'' 0 1 Red, cell ''c'' 0 2 Red, cell ''d'' 0 3 Blue] (cell ''c'' 0 2 Red))
   \<and> cell ''d'' 0 3 Blue \<notin> set (findMatches [cell ''a'' 0 0 Red, cell ''b'' 0 1 Red, cell ''c'' 0 2 Red, cell ''d'' 0 3 Blue] (cell ''c'' 0 2 Red))"
  using findMatches_pure_and_maximal
          [of "[cell ''a'' 0 0 Red, cell ''b'' 0 1 Red, cell ''c'' 0 2 Red, cell ''d'' 0 3 Blue]"
              "cell ''c'' 0 2 Red"]
  unfolding demo_matches
  by (simp add: cell_def isNeighbor_def js_rem_def)

text \<open>
  C3. On such a board, if the cluster of the start bubble has fewer than 3 bubbles (1 or
  2, the start bubble being one), \<open>checkMatches\<close> returns false and leaves the state as
  it is: no quiz, no pending match. If it has 3 or more, \<open>checkMatches\<close> returns true,
  the quiz is active and the pending list holds exactly the cluster, each bubble once.
\<close>

theorem checkMatches_threshold:
  assumes "distinct (map b_id (bubbles st))" and "s \<in> set (bubbles st)"
  shows "(card (cluster (bubbles st) s) < 3 \<longrightarrow> checkMatches s st = (False, st))
         \<and> (card (cluster (bubbles st) s) \<ge> 3 \<longrightarrow>
              fst (checkMatches s st)
              \<and> isQuizActiveRef (snd (checkMatches s st))
              \<and> set (pendingMatches (snd (checkMatches s st))) = cluster (bubbles st) s
              \<and> distinct (pendingMatches (snd (checkMatches s st))))"
proof -
  have "length (findMatches (bubbles st) s) = card (cluster (bubbles st) s)"
    using findMatches_cluster [OF assms] distinct_card by fastforce
  then show ?thesis
    using findMatches_cluster [OF assms]
    by (simp add: checkMatches_def Let_def triggerQuiz_def)
qed

theorem checkMatches_threshold_witness:
  "distinct (map b_id (bubbles (playing [cell ''a'' 0 0 Red, cell ''b'' 0 1 Red, cell ''c'' 0 2 Red, cell ''d'' 0 3 Blue] [])))
   \<and> cell ''c'' 0 2 Red \<in> set (bubbles (playing [cell ''a'' 0 0 Red, cell ''b'' 0 1 Red, cell ''c'' 0 2 Red, cell ''d'' 0 3 Blue] []))
   \<and> card (cluster (bubbles (playing [cell ''a'' 0 0 Red, cell ''b'' 0 1 Red, cell ''c'' 0 2 Red, cell ''d'' 0 3 Blue] [])) (cell ''c'' 0 2 Red)) = 3
   \<and> fst (checkMatches (cell ''c'' 0 2 Red) (playing [cell ''a'' 0 0 Red, cell ''b'' 0 1 Red, cell ''c'' 0 2 Red, cell ''d'' 0 3 Blue] []))
   \<and> pendingMatches (snd (checkMatches (cell ''c'' 0 2 Red) (playing [cell ''a'' 0 0 Red, cell ''b'' 0 1 Red, cell ''c'' 0 2 Red, cell ''d'' 0 3 Blue] [])))
       = [cell ''c'' 0 2 Red, cell ''b'' 0 1 Red, cell ''a'' 0 0 Red]
   \<and> card (cluster (bubbles (playing [cell ''a'' 0 0 Red, cell ''b'' 0 1 Red, cell ''c'' 0 2 Red, cell ''d'' 0 3 Blue] [])) (cell ''d'' 0 3 Blue)) = 1
   \<and> \<not> fst (checkMatches (cell ''d'' 0 3 Blue) (playing [cell ''a'' 0 0 Red, cell ''b'' 0 1 Red, cell ''c'' 0 2 Red, cell ''d'' 0 3 Blue] []))"
proof -
  let ?bs = "[cell ''a'' 0 0 Red, cell ''b'' 0 1 Red, cell ''c'' 0 2 Red, cell ''d'' 0 3 Blue]"
  have b: "bubbles (playing ?bs []) = ?bs" by (simp add: playing_def)
  have d: "distinct (map b_id ?bs)" by (simp add: cell_def)
  have c3: "cluster ?bs (cell ''c'' 0 2 Red) = set [cell ''c'' 0 2 Red, cell ''b'' 0 1 Red, cell ''a'' 0 0 Red]"
    using findMatches_cluster(1) [OF d, of "cell ''c'' 0 2 Red"] demo_matches by simp
  have c1: "cluster ?bs (cell ''d'' 0 3 Blue) = set [cell ''d'' 0 3 Blue]"
    using findMatches_cluster(1) [OF d, of "cell ''d'' 0 3 Blue"] demo_matches_single by simp
  have k3: "card (cluster ?bs (cell ''c'' 0 2 Red)) = 3"
    unfolding c3 by (simp add: cell_def)
  have k1: "card (cluster ?bs (cell ''d'' 0 3 Blue)) = 1"
    unfolding c1 by simp
  have p: "pendingMatches (snd (checkMatches (cell ''c'' 0 2 Red) (playing ?bs [])))
             = [cell ''c'' 0 2 Red, cell ''b'' 0 1 Red, cell ''a'' 0 0 Red]"
    by (simp add: checkMatches_def b demo_matches triggerQuiz_def)
  show ?thesis
    using checkMatches_threshold [of "playing ?bs []" "cell ''c'' 0 2 Red"]
          checkMatches_threshold [of "playing ?bs []" "cell ''d'' 0 3 Blue"]
    unfolding b using d k3 k1 p by (simp add: b)
qed

section \<open>Orphan detection computes the bubbles cut off from the ceiling\<close>

text \<open>
  The invariant of the loop of \<open>findFloatingBubbles\<close>, on a board with pairwise distinct
  ids: a connected id belongs to a bubble with a path from the ceiling, the ceiling is
  connected, and a connected bubble that has left the queue has all its settled
  neighbours connected.
\<close>

definition spInv :: "Bubble list \<Rightarrow> Bubble list \<Rightarrow> string set \<Rightarrow> bool" where
  "spInv bs queue conn \<longleftrightarrow>
     set queue \<subseteq> set bs
     \<and> (\<forall>q \<in> set queue. b_id q \<in> conn)
     \<and> (\<forall>b \<in> set bs. b_id b \<in> conn \<longrightarrow> b \<in> ceilingConnected bs)
     \<and> (\<forall>b \<in> set bs. settled b \<and> b_row b = 0 \<longrightarrow> b_id b \<in> conn)
     \<and> (\<forall>a \<in> set bs. b_id a \<in> conn \<and> a \<notin> set queue \<longrightarrow>
            (\<forall>b \<in> set bs. settled b \<and> isNeighbor a b \<longrightarrow> b_id b \<in> conn))"

lemma spInvE:
  assumes "spInv bs queue conn"
  obtains "set queue \<subseteq> set bs"
    and "\<forall>q \<in> set queue. b_id q \<in> conn"
    and "\<forall>b \<in> set bs. b_id b \<in> conn \<longrightarrow> b \<in> ceilingConnected bs"
    and "\<forall>b \<in> set bs. settled b \<and> b_row b = 0 \<longrightarrow> b_id b \<in> conn"
    and "\<forall>a \<in> set bs. b_id a \<in> conn \<and> a \<notin> set queue \<longrightarrow>
            (\<forall>b \<in> set bs. settled b \<and> isNeighbor a b \<longrightarrow> b_id b \<in> conn)"
  using assms unfolding spInv_def by (elim conjE) (rule that)

lemma spInv_start:
  assumes d: "distinct (map b_id bs)"
  shows "spInv bs (filter (\<lambda>b. b_row b = 0 \<and> b_active b \<and> \<not> b_isFloating b) bs)
           (b_id ` set (filter (\<lambda>b. b_row b = 0 \<and> b_active b \<and> \<not> b_isFloating b) bs))"
proof -
  let ?q = "filter (\<lambda>b. b_row b = 0 \<and> b_active b \<and> \<not> b_isFloating b) bs"
  have inq: "b \<in> set ?q" if "b \<in> set bs" "b_id b \<in> b_id ` set ?q" for b
  proof -
    from that(2) obtain q where q: "q \<in> set ?q" "b_id b = b_id q" by auto
    then have qb: "q \<in> set bs" by simp
    from d that(1) qb q(2) have "b = q" by (rule distinct_ids_eq)
    with q(1) show ?thesis by simp
  qed
  have 1: "set ?q \<subseteq> set bs" by auto
  have 2: "\<forall>q \<in> set ?q. b_id q \<in> b_id ` set ?q" by simp
  have 3: "\<forall>b \<in> set bs. b_id b \<in> b_id ` set ?q \<longrightarrow> b \<in> ceilingConnected bs"
  proof (intro ballI impI)
    fix b assume "b \<in> set bs" "b_id b \<in> b_id ` set ?q"
    then have "b \<in> set ?q" by (rule inq)
    then show "b \<in> ceilingConnected bs"
      by (auto intro: ceilingConnected.ceiling simp: settled_def)
  qed
  have 4: "\<forall>b \<in> set bs. settled b \<and> b_row b = 0 \<longrightarrow> b_id b \<in> b_id ` set ?q"
    by (auto simp: settled_def)
  have 5: "\<forall>a \<in> set bs. b_id a \<in> b_id ` set ?q \<and> a \<notin> set ?q \<longrightarrow>
            (\<forall>b \<in> set bs. settled b \<and> isNeighbor a b \<longrightarrow> b_id b \<in> b_id ` set ?q)"
    using inq by blast
  show ?thesis unfolding spInv_def by (intro conjI 1 2 3 4 5)
qed

lemma spInv_step:
  assumes inv: "spInv bs (cur # queue) conn" and d: "distinct (map b_id bs)"
  shows "spInv bs
           (queue @ filter (\<lambda>b. b_active b \<and> \<not> b_isFloating b \<and> b_id b \<notin> conn
                                 \<and> isNeighbor cur b) bs)
           (conn \<union> b_id ` set (filter (\<lambda>b. b_active b \<and> \<not> b_isFloating b \<and> b_id b \<notin> conn
                                 \<and> isNeighbor cur b) bs))"
proof -
  define ns where "ns = filter (\<lambda>b. b_active b \<and> \<not> b_isFloating b \<and> b_id b \<notin> conn
                                 \<and> isNeighbor cur b) bs"
  have ns_iff: "b \<in> set ns \<longleftrightarrow> b \<in> set bs \<and> settled b \<and> b_id b \<notin> conn \<and> isNeighbor cur b"
    for b unfolding ns_def settled_def by auto
  from inv obtain sub: "set (cur # queue) \<subseteq> set bs"
    and qc: "\<forall>q \<in> set (cur # queue). b_id q \<in> conn"
    and sound: "\<forall>b \<in> set bs. b_id b \<in> conn \<longrightarrow> b \<in> ceilingConnected bs"
    and seed: "\<forall>b \<in> set bs. settled b \<and> b_row b = 0 \<longrightarrow> b_id b \<in> conn"
    and closed: "\<forall>a \<in> set bs. b_id a \<in> conn \<and> a \<notin> set (cur # queue) \<longrightarrow>
            (\<forall>b \<in> set bs. settled b \<and> isNeighbor a b \<longrightarrow> b_id b \<in> conn)"
    by (rule spInvE)
  have cur: "cur \<in> set bs" using sub by simp
  have curc: "b_id cur \<in> conn" using qc by simp
  have curcc: "cur \<in> ceilingConnected bs" using sound cur curc by blast
  have inq: "b \<in> set ns" if "b \<in> set bs" "b_id b \<in> b_id ` set ns" for b
  proof -
    from that(2) obtain q where q: "q \<in> set ns" "b_id b = b_id q" by blast
    then have qb: "q \<in> set bs" using ns_iff by blast
    from d that(1) qb q(2) have "b = q" by (rule distinct_ids_eq)
    with q(1) show ?thesis by simp
  qed
  have 1: "set (queue @ ns) \<subseteq> set bs"
  proof -
    have "set queue \<subseteq> set bs" using sub by simp
    moreover have "set ns \<subseteq> set bs" using ns_iff by blast
    ultimately show ?thesis by simp
  qed
  have 2: "\<forall>q \<in> set (queue @ ns). b_id q \<in> conn \<union> b_id ` set ns"
  proof
    fix q assume "q \<in> set (queue @ ns)"
    then have "q \<in> set queue \<or> q \<in> set ns" by simp
    then show "b_id q \<in> conn \<union> b_id ` set ns"
    proof
      assume "q \<in> set queue"
      then have "b_id q \<in> conn" using qc by simp
      then show ?thesis by simp
    next
      assume "q \<in> set ns"
      then show ?thesis by blast
    qed
  qed
  have 3: "\<forall>b \<in> set bs. b_id b \<in> conn \<union> b_id ` set ns \<longrightarrow> b \<in> ceilingConnected bs"
  proof (intro ballI impI)
    fix b assume b: "b \<in> set bs" and i: "b_id b \<in> conn \<union> b_id ` set ns"
    show "b \<in> ceilingConnected bs"
    proof (cases "b_id b \<in> conn")
      case True
      with sound b show ?thesis by blast
    next
      case False
      with i have "b_id b \<in> b_id ` set ns" by blast
      with b have "b \<in> set ns" by (rule inq)
      then have "settled b" "isNeighbor cur b" using ns_iff by blast+
      with curcc b show ?thesis by (rule ceilingConnected.link)
    qed
  qed
  have 4: "\<forall>b \<in> set bs. settled b \<and> b_row b = 0 \<longrightarrow> b_id b \<in> conn \<union> b_id ` set ns"
    using seed by blast
  have 5: "\<forall>a \<in> set bs. b_id a \<in> conn \<union> b_id ` set ns \<and> a \<notin> set (queue @ ns) \<longrightarrow>
            (\<forall>b \<in> set bs. settled b \<and> isNeighbor a b \<longrightarrow> b_id b \<in> conn \<union> b_id ` set ns)"
  proof (intro ballI impI)
    fix a b assume a: "a \<in> set bs"
      and h: "b_id a \<in> conn \<union> b_id ` set ns \<and> a \<notin> set (queue @ ns)"
      and b: "b \<in> set bs" and nb: "settled b \<and> isNeighbor a b"
    from h have an: "a \<notin> set ns" and aq: "a \<notin> set queue" by simp_all
    have ac: "b_id a \<in> conn"
    proof (rule ccontr)
      assume "b_id a \<notin> conn"
      with h have "b_id a \<in> b_id ` set ns" by blast
      with a have "a \<in> set ns" by (rule inq)
      with an show False by contradiction
    qed
    show "b_id b \<in> conn \<union> b_id ` set ns"
    proof (cases "a = cur")
      case True
      show ?thesis
      proof (cases "b_id b \<in> conn")
        case True
        then show ?thesis by simp
      next
        case False
        with b nb \<open>a = cur\<close> have "b \<in> set ns" using ns_iff by blast
        then show ?thesis by blast
      qed
    next
      case False
      with aq have "a \<notin> set (cur # queue)" by simp
      with closed a ac have "\<forall>b \<in> set bs. settled b \<and> isNeighbor a b \<longrightarrow> b_id b \<in> conn"
        by blast
      with b nb have "b_id b \<in> conn" by blast
      then show ?thesis by simp
    qed
  qed
  have "spInv bs (queue @ ns) (conn \<union> b_id ` set ns)"
    unfolding spInv_def by (intro conjI 1 2 3 4 5)
  then show ?thesis unfolding ns_def .
qed

lemma spInv_final:
  assumes inv: "spInv bs [] conn" and b: "b \<in> set bs"
  shows "b_id b \<in> conn \<longleftrightarrow> b \<in> ceilingConnected bs"
proof
  from inv have "\<forall>b \<in> set bs. b_id b \<in> conn \<longrightarrow> b \<in> ceilingConnected bs"
    by (rule spInvE)
  with b show "b_id b \<in> conn \<Longrightarrow> b \<in> ceilingConnected bs" by blast
next
  from inv obtain
    seed: "\<forall>b \<in> set bs. settled b \<and> b_row b = 0 \<longrightarrow> b_id b \<in> conn"
    and closed: "\<forall>a \<in> set bs. b_id a \<in> conn \<and> a \<notin> set [] \<longrightarrow>
            (\<forall>b \<in> set bs. settled b \<and> isNeighbor a b \<longrightarrow> b_id b \<in> conn)"
    by (rule spInvE)
  have "c \<in> set bs \<and> b_id c \<in> conn" if "c \<in> ceilingConnected bs" for c
    using that
  proof (induction rule: ceilingConnected.induct)
    case (ceiling b)
    with seed show ?case by blast
  next
    case (link a b)
    from link(5) have a: "a \<in> set bs" and ac: "b_id a \<in> conn" by blast+
    have "a \<notin> set []" by simp
    with closed a ac have "\<forall>b \<in> set bs. settled b \<and> isNeighbor a b \<longrightarrow> b_id b \<in> conn"
      by blast
    with link(2,3,4) have "b_id b \<in> conn" by blast
    with link(2) show ?case by blast
  qed
  then show "b \<in> ceilingConnected bs \<Longrightarrow> b_id b \<in> conn" by blast
qed

lemma spread_inv:
  assumes "distinct (map b_id bs)" "spInv bs queue conn" "b \<in> set bs"
  shows "b_id b \<in> spread bs queue conn \<longleftrightarrow> b \<in> ceilingConnected bs"
  using assms
proof (induction bs queue conn rule: spread.induct)
  case (1 bs conn)
  then show ?case using spInv_final by simp
next
  case (2 bs cur queue conn)
  from spInv_step [OF "2.prems"(2,1)] "2.IH" [OF refl "2.prems"(1) _ "2.prems"(3)]
  show ?case by (simp add: Let_def)
qed

lemma findFloatingBubbles_set:
  assumes "distinct (map b_id bs)"
  shows "set (findFloatingBubbles bs) = {b \<in> set bs. settled b \<and> b \<notin> ceilingConnected bs}"
  using spread_inv [OF assms spInv_start [OF assms]]
  by (auto simp: findFloatingBubbles_def Let_def settled_def)

lemma popMatches_ids: "map b_id (popMatches t pm bs) = map b_id bs"
  by (simp add: popMatches_def)

lemma popMatches_inactive:
  assumes "b \<in> set (popMatches t pm bs)" "b_id b \<in> b_id ` set pm"
  shows "\<not> b_active b"
proof -
  from assms(1) obtain b0 where b0: "b0 \<in> set bs"
    and b: "b = (if b_id b0 \<in> b_id ` set pm then b0\<lparr>b_active := False, b_popTime := Some t\<rparr> else b0)"
    unfolding popMatches_def by auto
  show ?thesis
  proof (cases "b_id b0 \<in> b_id ` set pm")
    case True
    with b show ?thesis by simp
  next
    case False
    with b have "b = b0" by simp
    with False assms(2) show ?thesis by simp
  qed
qed

lemma floatAway_rel:
  "list_all2 (sameButFloat (\<lambda>b. b \<in> set fl)) bs (fst (floatAway fl r i bs))"
proof (induction fl r i bs rule: floatAway.induct)
  case (1 floating r i)
  show ?case by simp
next
  case (2 floating r i b bs)
  show ?case
  proof (cases "b \<in> set floating")
    case True
    with 2(1) show ?thesis by (simp add: Let_def sameButFloat_def)
  next
    case False
    with 2(2) show ?thesis by (simp add: Let_def sameButFloat_def)
  qed
qed

lemma awardMatch_rel:
  "list_all2 (sameButFloat (\<lambda>b. b \<in> set (findFloatingBubbles
                 (popMatches (now env) (pendingMatches st) (bubbles st)))))
     (popMatches (now env) (pendingMatches st) (bubbles st))
     (bubbles (fst (awardMatch env d st)))"
proof (cases "findFloatingBubbles (popMatches (now env) (pendingMatches st) (bubbles st)) = []")
  case True
  then show ?thesis unfolding awardMatch_bubbles Let_def
    by (simp add: list.rel_refl sameButFloat_def)
next
  case False
  then show ?thesis unfolding awardMatch_bubbles Let_def
    using floatAway_rel by simp
qed

lemma completeMatch_not_cleared:
  assumes "userProfile st = Some d"
    and "\<exists>b \<in> set (bubbles (fst (awardMatch env d st))). b_active b \<and> \<not> b_isFloating b"
  shows "bubbles (completeMatch env True st) = bubbles (fst (awardMatch env d st))"
proof -
  from assms(2) have "filter (\<lambda>b. b_active b \<and> \<not> b_isFloating b)
                        (bubbles (fst (awardMatch env d st))) \<noteq> []"
    by (simp add: filter_empty_conv)
  then show ?thesis unfolding completeMatch_def Let_def using assms(1) by simp
qed


lemma ceilingConnected_settled: "b \<in> ceilingConnected bs \<Longrightarrow> b \<in> set bs \<and> settled b"
  by (induction rule: ceilingConnected.induct) auto

lemma list_all2_pick:
  "list_all2 P xs ys \<Longrightarrow> x \<in> set xs \<Longrightarrow> \<exists>y \<in> set ys. P x y"
  by (induction rule: list_all2_induct) auto

lemma completeMatch_rel:
  assumes d: "distinct (map b_id (bubbles st))" and p: "userProfile st = Some dif"
    and post: "post = popMatches (now env) (pendingMatches st) (bubbles st)"
    and keep: "\<exists>b \<in> set post. b \<in> ceilingConnected post"
  shows "list_all2 (sameButFloat (\<lambda>b. settled b \<and> b \<notin> ceilingConnected post)) post
           (bubbles (completeMatch env True st))"
proof -
  have dp: "distinct (map b_id post)" using d by (simp add: post popMatches_ids)
  have fl: "set (findFloatingBubbles post) = {b \<in> set post. settled b \<and> b \<notin> ceilingConnected post}"
    using dp by (rule findFloatingBubbles_set)
  have r0: "list_all2 (sameButFloat (\<lambda>b. b \<in> set (findFloatingBubbles post))) post
              (bubbles (fst (awardMatch env dif st)))"
    unfolding post by (rule awardMatch_rel)
  have r1: "list_all2 (sameButFloat (\<lambda>b. settled b \<and> b \<notin> ceilingConnected post)) post
              (bubbles (fst (awardMatch env dif st)))"
    using r0
  proof (rule list.rel_mono_strong)
    fix z y assume "z \<in> set post" "sameButFloat (\<lambda>b. b \<in> set (findFloatingBubbles post)) z y"
    then show "sameButFloat (\<lambda>b. settled b \<and> b \<notin> ceilingConnected post) z y"
      unfolding fl sameButFloat_def by simp
  qed
  from keep obtain b where b: "b \<in> set post" "b \<in> ceilingConnected post" by blast
  then have sb: "settled b" using ceilingConnected_settled by blast
  from list_all2_pick [OF r1 b(1)] obtain b' where b': "b' \<in> set (bubbles (fst (awardMatch env dif st)))"
    "sameButFloat (\<lambda>b. settled b \<and> b \<notin> ceilingConnected post) b b'" by blast
  from b'(2) sb b(2) have "b_active b' \<and> \<not> b_isFloating b'"
    unfolding sameButFloat_def settled_def by simp
  with b'(1) have "\<exists>b \<in> set (bubbles (fst (awardMatch env dif st))). b_active b \<and> \<not> b_isFloating b"
    by blast
  from completeMatch_not_cleared [OF p this] r1 show ?thesis by simp
qed

lemma demo_post:
  "popMatches t [cell ''c'' 0 2 Red, cell ''b'' 0 1 Red, cell ''a'' 0 0 Red]
     [cell ''a'' 0 0 Red, cell ''b'' 0 1 Red, cell ''c'' 0 2 Red, cell ''d'' 1 0 Blue, cell ''e'' 0 3 Blue]
   = [(cell ''a'' 0 0 Red)\<lparr>b_active := False, b_popTime := Some t\<rparr>,
      (cell ''b'' 0 1 Red)\<lparr>b_active := False, b_popTime := Some t\<rparr>,
      (cell ''c'' 0 2 Red)\<lparr>b_active := False, b_popTime := Some t\<rparr>,
      cell ''d'' 1 0 Blue, cell ''e'' 0 3 Blue]"
  by (simp add: popMatches_def cell_def)

lemma demo_orphans:
  "findFloatingBubbles
     [(cell ''a'' 0 0 Red)\<lparr>b_active := False, b_popTime := Some t\<rparr>,
      (cell ''b'' 0 1 Red)\<lparr>b_active := False, b_popTime := Some t\<rparr>,
      (cell ''c'' 0 2 Red)\<lparr>b_active := False, b_popTime := Some t\<rparr>,
      cell ''d'' 1 0 Blue, cell ''e'' 0 3 Blue] = [cell ''d'' 1 0 Blue]"
  by (simp add: findFloatingBubbles_def cell_def isNeighbor_def js_rem_def)

lemma demo_award:
  "bubbles (completeMatch (steady 1000) True
      (playing [cell ''a'' 0 0 Red, cell ''b'' 0 1 Red, cell ''c'' 0 2 Red, cell ''d'' 1 0 Blue, cell ''e'' 0 3 Blue]
               [cell ''c'' 0 2 Red, cell ''b'' 0 1 Red, cell ''a'' 0 0 Red]))
   = [(cell ''a'' 0 0 Red)\<lparr>b_active := False, b_popTime := Some 1000\<rparr>,
      (cell ''b'' 0 1 Red)\<lparr>b_active := False, b_popTime := Some 1000\<rparr>,
      (cell ''c'' 0 2 Red)\<lparr>b_active := False, b_popTime := Some 1000\<rparr>,
      (cell ''d'' 1 0 Blue)\<lparr>b_isFloating := True, b_vx := Some 0, b_vy := Some (- 9 / 2)\<rparr>,
      cell ''e'' 0 3 Blue]"
proof -
  have p: "userProfile (playing bs pm) = Some Easy" "bubbles (playing bs pm) = bs"
    "pendingMatches (playing bs pm) = pm" for bs pm
    by (simp_all add: playing_def)
  have e: "now (steady 1000) = 1000" "rnd (steady 1000) = (\<lambda>_. 1/2)" by (simp_all add: steady_def)
  have a: "bubbles (fst (awardMatch (steady 1000) Easy
      (playing [cell ''a'' 0 0 Red, cell ''b'' 0 1 Red, cell ''c'' 0 2 Red, cell ''d'' 1 0 Blue, cell ''e'' 0 3 Blue]
               [cell ''c'' 0 2 Red, cell ''b'' 0 1 Red, cell ''a'' 0 0 Red])))
   = [(cell ''a'' 0 0 Red)\<lparr>b_active := False, b_popTime := Some 1000\<rparr>,
      (cell ''b'' 0 1 Red)\<lparr>b_active := False, b_popTime := Some 1000\<rparr>,
      (cell ''c'' 0 2 Red)\<lparr>b_active := False, b_popTime := Some 1000\<rparr>,
      (cell ''d'' 1 0 Blue)\<lparr>b_isFloating := True, b_vx := Some 0, b_vy := Some (- 9 / 2)\<rparr>,
      cell ''e'' 0 3 Blue]"
    unfolding awardMatch_bubbles p e demo_post demo_orphans Let_def
    by (simp add: cell_def)
  have nc: "\<exists>b \<in> set (bubbles (fst (awardMatch (steady 1000) Easy
      (playing [cell ''a'' 0 0 Red, cell ''b'' 0 1 Red, cell ''c'' 0 2 Red, cell ''d'' 1 0 Blue, cell ''e'' 0 3 Blue]
               [cell ''c'' 0 2 Red, cell ''b'' 0 1 Red, cell ''a'' 0 0 Red])))).
        b_active b \<and> \<not> b_isFloating b"
    unfolding a by (simp add: cell_def)
  show ?thesis using completeMatch_not_cleared [OF p(1) nc] a by simp
qed

text \<open>
  C4. On a board with pairwise distinct ids, \<open>findFloatingBubbles\<close> returns exactly the
  active, non-floating bubbles without an adjacency path (through active, non-floating
  bubbles of any colour) from an active, non-floating bubble of row 0. In
  \<open>completeMatch(true)\<close>, with a profile and a board that the removal does not clear,
  every bubble of the pending list is inactive on the post-removal board, and a
  bubble is floating afterwards iff it was floating before or is such an orphan of the
  post-removal board: orphans are judged after the removal.
\<close>

theorem orphans_exact_after_removal:
  assumes "distinct (map b_id bs)"
  shows "set (findFloatingBubbles bs) = {b \<in> set bs. settled b \<and> b \<notin> ceilingConnected bs}
         \<and> (bubbles st = bs \<and> userProfile st = Some dif
              \<and> (\<exists>b \<in> set (popMatches (now env) (pendingMatches st) bs).
                    b \<in> ceilingConnected (popMatches (now env) (pendingMatches st) bs))
            \<longrightarrow> (\<forall>b \<in> set (popMatches (now env) (pendingMatches st) bs).
                    b_id b \<in> b_id ` set (pendingMatches st) \<longrightarrow> \<not> b_active b)
                \<and> list_all2
                    (sameButFloat (\<lambda>b. settled b
                        \<and> b \<notin> ceilingConnected (popMatches (now env) (pendingMatches st) bs)))
                    (popMatches (now env) (pendingMatches st) bs)
                    (bubbles (completeMatch env True st)))"
proof (intro conjI impI)
  show "set (findFloatingBubbles bs) = {b \<in> set bs. settled b \<and> b \<notin> ceilingConnected bs}"
    using assms by (rule findFloatingBubbles_set)
next
  assume h: "bubbles st = bs \<and> userProfile st = Some dif
              \<and> (\<exists>b \<in> set (popMatches (now env) (pendingMatches st) bs).
                    b \<in> ceilingConnected (popMatches (now env) (pendingMatches st) bs))"
  show "\<forall>b \<in> set (popMatches (now env) (pendingMatches st) bs).
          b_id b \<in> b_id ` set (pendingMatches st) \<longrightarrow> \<not> b_active b"
    using popMatches_inactive by blast
  from h have d: "distinct (map b_id (bubbles st))" using assms by simp
  from h have post: "popMatches (now env) (pendingMatches st) bs
                       = popMatches (now env) (pendingMatches st) (bubbles st)" by simp
  from h have p: "userProfile st = Some dif" by simp
  from h have k: "\<exists>b \<in> set (popMatches (now env) (pendingMatches st) bs).
                    b \<in> ceilingConnected (popMatches (now env) (pendingMatches st) bs)" by simp
  show "list_all2
          (sameButFloat (\<lambda>b. settled b
              \<and> b \<notin> ceilingConnected (popMatches (now env) (pendingMatches st) bs)))
          (popMatches (now env) (pendingMatches st) bs)
          (bubbles (completeMatch env True st))"
    by (rule completeMatch_rel [OF d p post k])
qed

theorem orphans_exact_after_removal_witness:
  "distinct (map b_id [cell ''a'' 0 0 Red, cell ''b'' 0 1 Red, cell ''c'' 0 2 Red, cell ''d'' 1 0 Blue, cell ''e'' 0 3 Blue])
   \<and> userProfile (playing [cell ''a'' 0 0 Red, cell ''b'' 0 1 Red, cell ''c'' 0 2 Red, cell ''d'' 1 0 Blue, cell ''e'' 0 3 Blue]
                           [cell ''c'' 0 2 Red, cell ''b'' 0 1 Red, cell ''a'' 0 0 Red]) = Some Easy
   \<and> cell ''e'' 0 3 Blue \<in> ceilingConnected
        (popMatches 1000 [cell ''c'' 0 2 Red, cell ''b'' 0 1 Red, cell ''a'' 0 0 Red]
           [cell ''a'' 0 0 Red, cell ''b'' 0 1 Red, cell ''c'' 0 2 Red, cell ''d'' 1 0 Blue, cell ''e'' 0 3 Blue])
   \<and> cell ''d'' 1 0 Blue \<notin> ceilingConnected
        (popMatches 1000 [cell ''c'' 0 2 Red, cell ''b'' 0 1 Red, cell ''a'' 0 0 Red]
           [cell ''a'' 0 0 Red, cell ''b'' 0 1 Red, cell ''c'' 0 2 Red, cell ''d'' 1 0 Blue, cell ''e'' 0 3 Blue])
   \<and> map b_isFloating (bubbles (completeMatch (steady 1000) True
        (playing [cell ''a'' 0 0 Red, cell ''b'' 0 1 Red, cell ''c'' 0 2 Red, cell ''d'' 1 0 Blue, cell ''e'' 0 3 Blue]
                 [cell ''c'' 0 2 Red, cell ''b'' 0 1 Red, cell ''a'' 0 0 Red])))
       = [False, False, False, True, False]
   \<and> list_all2
        (sameButFloat (\<lambda>b. settled b \<and> b \<notin> ceilingConnected
           (popMatches 1000 [cell ''c'' 0 2 Red, cell ''b'' 0 1 Red, cell ''a'' 0 0 Red]
              [cell ''a'' 0 0 Red, cell ''b'' 0 1 Red, cell ''c'' 0 2 Red, cell ''d'' 1 0 Blue, cell ''e'' 0 3 Blue])))
        (popMatches 1000 [cell ''c'' 0 2 Red, cell ''b'' 0 1 Red, cell ''a'' 0 0 Red]
           [cell ''a'' 0 0 Red, cell ''b'' 0 1 Red, cell ''c'' 0 2 Red, cell ''d'' 1 0 Blue, cell ''e'' 0 3 Blue])
        (bubbles (completeMatch (steady 1000) True
           (playing [cell ''a'' 0 0 Red, cell ''b'' 0 1 Red, cell ''c'' 0 2 Red, cell ''d'' 1 0 Blue, cell ''e'' 0 3 Blue]
                    [cell ''c'' 0 2 Red, cell ''b'' 0 1 Red, cell ''a'' 0 0 Red])))"
proof -
  let ?bs = "[cell ''a'' 0 0 Red, cell ''b'' 0 1 Red, cell ''c'' 0 2 Red, cell ''d'' 1 0 Blue, cell ''e'' 0 3 Blue]"
  let ?pm = "[cell ''c'' 0 2 Red, cell ''b'' 0 1 Red, cell ''a'' 0 0 Red]"
  let ?post = "popMatches 1000 ?pm ?bs"
  have d: "distinct (map b_id ?bs)" by (simp add: cell_def)
  have dp: "distinct (map b_id ?post)" using d by (simp add: popMatches_ids)
  have p: "userProfile (playing ?bs ?pm) = Some Easy" by (simp add: playing_def)
  have e: "cell ''e'' 0 3 Blue \<in> ceilingConnected ?post"
    unfolding demo_post by (rule ceilingConnected.ceiling) (simp_all add: cell_def settled_def)
  have "cell ''d'' 1 0 Blue \<in> set (findFloatingBubbles ?post)"
    unfolding demo_post demo_orphans by simp
  with orphans_exact_after_removal [OF dp] have o: "cell ''d'' 1 0 Blue \<notin> ceilingConnected ?post"
    by blast
  have st: "bubbles (playing ?bs ?pm) = ?bs" "pendingMatches (playing ?bs ?pm) = ?pm"
    "now (steady 1000) = 1000"
    by (simp_all add: playing_def steady_def)
  have ex: "\<exists>b \<in> set ?post. b \<in> ceilingConnected ?post"
    using e ceilingConnected_settled by blast
  from orphans_exact_after_removal [OF d, of "playing ?bs ?pm" Easy "steady 1000"]
  have r: "list_all2 (sameButFloat (\<lambda>b. settled b \<and> b \<notin> ceilingConnected ?post)) ?post
             (bubbles (completeMatch (steady 1000) True (playing ?bs ?pm)))"
    unfolding st using p ex by blast
  have f: "map b_isFloating (bubbles (completeMatch (steady 1000) True (playing ?bs ?pm)))
             = [False, False, False, True, False]"
    unfolding demo_award by (simp add: cell_def)
  show ?thesis using d p e o f r by blast
qed

section \<open>Scoring a resolved match\<close>

lemma fold_points: "fold (\<lambda>b p. p + k) xs a = a + int (length xs) * (k::int)"
  by (induction xs arbitrary: a) (simp_all add: algebra_simps)

lemma awardMatch_score:
  "scoreRef (fst (awardMatch env d st)) =
     scoreRef st
     + (let k = points (case pendingMatches st of [] \<Rightarrow> Red | b # _ \<Rightarrow> b_color b);
            n = length (findFloatingBubbles
                          (popMatches (now env) (pendingMatches st) (bubbles st)))
        in int (length (pendingMatches st)) * k + int n * k * 2 + 500)"
  unfolding awardMatch_def Let_def fold_points by (simp split: if_split)

lemma initGrid_score: "scoreRef (fst (initGrid env w d st i)) = scoreRef st"
  unfolding initGrid_def Let_def by (simp split: if_split)

lemma completeMatch_scoreRef:
  "scoreRef (completeMatch env awarded st) =
     (case userProfile st of
        Some d \<Rightarrow> if awarded then scoreRef (fst (awardMatch env d st)) else scoreRef st
      | None \<Rightarrow> scoreRef st)"
  unfolding completeMatch_def Let_def
  by (simp add: initGrid_score split: option.split if_split)

lemma completeMatch_declined:
  assumes "\<exists>b \<in> set (bubbles st). settled b"
  shows "bubbles (completeMatch env False st) = bubbles st"
proof -
  from assms have "filter (\<lambda>b. b_active b \<and> \<not> b_isFloating b) (bubbles st) \<noteq> []"
    by (simp add: filter_empty_conv settled_def)
  then show ?thesis unfolding completeMatch_def Let_def
    by (simp split: option.split)
qed

text \<open>
  C5. For a non-empty pending list of \<open>n\<close> bubbles: with a profile set and all pending
  bubbles of colour \<open>c\<close>, \<open>completeMatch(true)\<close> adds exactly
  \<open>n * points c + orphanCount * points c * 2 + 500\<close> to the score, where \<open>orphanCount\<close>
  is the number of bubbles that \<open>findFloatingBubbles\<close> returns on the post-removal
  board; and when the pending bubbles are settled bubbles of the board,
  \<open>completeMatch(false)\<close> leaves the score and the whole list of bubbles as they are.
\<close>

theorem completeMatch_score:
  assumes "pendingMatches st \<noteq> []"
  shows "(userProfile st = Some d \<and> (\<forall>b \<in> set (pendingMatches st). b_color b = c)
            \<longrightarrow> scoreRef (completeMatch env True st)
                  = scoreRef st + int (length (pendingMatches st)) * points c
                    + int (length (findFloatingBubbles
                        (popMatches (now env) (pendingMatches st) (bubbles st)))) * points c * 2
                    + 500)
         \<and> ((\<forall>b \<in> set (pendingMatches st). b \<in> set (bubbles st) \<and> settled b)
            \<longrightarrow> scoreRef (completeMatch env False st) = scoreRef st
                \<and> bubbles (completeMatch env False st) = bubbles st)"
proof (intro conjI impI)
  assume h: "userProfile st = Some d \<and> (\<forall>b \<in> set (pendingMatches st). b_color b = c)"
  from assms obtain b rest where pm: "pendingMatches st = b # rest"
    by (cases "pendingMatches st") auto
  with h have "b_color b = c" by simp
  with pm have tc: "(case pendingMatches st of [] \<Rightarrow> Red | b # _ \<Rightarrow> b_color b) = c" by simp
  show "scoreRef (completeMatch env True st)
          = scoreRef st + int (length (pendingMatches st)) * points c
            + int (length (findFloatingBubbles
                (popMatches (now env) (pendingMatches st) (bubbles st)))) * points c * 2
            + 500"
    using h unfolding completeMatch_scoreRef awardMatch_score tc Let_def by simp
next
  assume h: "\<forall>b \<in> set (pendingMatches st). b \<in> set (bubbles st) \<and> settled b"
  show "scoreRef (completeMatch env False st) = scoreRef st"
    unfolding completeMatch_scoreRef by (simp split: option.split)
  from assms obtain b where "b \<in> set (pendingMatches st)" by (cases "pendingMatches st") auto
  with h have "\<exists>b \<in> set (bubbles st). settled b" by blast
  then show "bubbles (completeMatch env False st) = bubbles st"
    by (rule completeMatch_declined)
qed

theorem completeMatch_score_witness:
  "pendingMatches (playing [cell ''a'' 0 0 Red, cell ''b'' 0 1 Red, cell ''c'' 0 2 Red, cell ''d'' 1 0 Blue, cell ''e'' 0 3 Blue]
                           [cell ''c'' 0 2 Red, cell ''b'' 0 1 Red, cell ''a'' 0 0 Red]) \<noteq> []
   \<and> userProfile (playing [cell ''a'' 0 0 Red, cell ''b'' 0 1 Red, cell ''c'' 0 2 Red, cell ''d'' 1 0 Blue, cell ''e'' 0 3 Blue]
                           [cell ''c'' 0 2 Red, cell ''b'' 0 1 Red, cell ''a'' 0 0 Red]) = Some Easy
   \<and> scoreRef (playing [cell ''a'' 0 0 Red, cell ''b'' 0 1 Red, cell ''c'' 0 2 Red, cell ''d'' 1 0 Blue, cell ''e'' 0 3 Blue]
                           [cell ''c'' 0 2 Red, cell ''b'' 0 1 Red, cell ''a'' 0 0 Red]) = 0
   \<and> scoreRef (completeMatch (steady 1000) True
        (playing [cell ''a'' 0 0 Red, cell ''b'' 0 1 Red, cell ''c'' 0 2 Red, cell ''d'' 1 0 Blue, cell ''e'' 0 3 Blue]
                 [cell ''c'' 0 2 Red, cell ''b'' 0 1 Red, cell ''a'' 0 0 Red])) = 3 * 100 + 1 * 100 * 2 + 500
   \<and> scoreRef (completeMatch (steady 1000) False
        (playing [cell ''a'' 0 0 Red, cell ''b'' 0 1 Red, cell ''c'' 0 2 Red, cell ''d'' 1 0 Blue, cell ''e'' 0 3 Blue]
                 [cell ''c'' 0 2 Red, cell ''b'' 0 1 Red, cell ''a'' 0 0 Red])) = 0
   \<and> bubbles (completeMatch (steady 1000) False
        (playing [cell ''a'' 0 0 Red, cell ''b'' 0 1 Red, cell ''c'' 0 2 Red, cell ''d'' 1 0 Blue, cell ''e'' 0 3 Blue]
                 [cell ''c'' 0 2 Red, cell ''b'' 0 1 Red, cell ''a'' 0 0 Red]))
       = [cell ''a'' 0 0 Red, cell ''b'' 0 1 Red, cell ''c'' 0 2 Red, cell ''d'' 1 0 Blue, cell ''e'' 0 3 Blue]"
proof -
  let ?bs = "[cell ''a'' 0 0 Red, cell ''b'' 0 1 Red, cell ''c'' 0 2 Red, cell ''d'' 1 0 Blue, cell ''e'' 0 3 Blue]"
  let ?pm = "[cell ''c'' 0 2 Red, cell ''b'' 0 1 Red, cell ''a'' 0 0 Red]"
  have st: "bubbles (playing ?bs ?pm) = ?bs" "pendingMatches (playing ?bs ?pm) = ?pm"
    "userProfile (playing ?bs ?pm) = Some Easy" "scoreRef (playing ?bs ?pm) = 0"
    "now (steady 1000) = 1000"
    by (simp_all add: playing_def steady_def)
  have ne: "pendingMatches (playing ?bs ?pm) \<noteq> []" unfolding st by simp
  have col: "\<forall>b \<in> set ?pm. b_color b = Red" by (simp add: cell_def)
  have onb: "\<forall>b \<in> set ?pm. b \<in> set ?bs \<and> settled b" by (simp add: cell_def settled_def)
  from completeMatch_score [OF ne, of Easy Red "steady 1000"]
  show ?thesis unfolding st demo_post demo_orphans using col onb by simp
qed

section \<open>The spawn timer and the pending match\<close>

lemma autoDrop_quiz: "isQuizActiveRef st \<Longrightarrow> autoDrop env st = st"
  unfolding autoDrop_def by (simp split: option.split)

lemma awardMatch_lastDrop: "lastDropTimeRef (fst (awardMatch env d st)) = lastDropTimeRef st"
  unfolding awardMatch_def Let_def by (simp split: if_split)

lemma completeMatch_lastDrop_kept:
  assumes "userProfile st = Some d"
    and "\<exists>b \<in> set (bubbles (fst (awardMatch env d st))). b_active b \<and> \<not> b_isFloating b"
  shows "lastDropTimeRef (completeMatch env True st) = lastDropTimeRef st"
proof -
  from assms(2) have "filter (\<lambda>b. b_active b \<and> \<not> b_isFloating b)
                        (bubbles (fst (awardMatch env d st))) \<noteq> []"
    by (simp add: filter_empty_conv)
  then show ?thesis unfolding completeMatch_def Let_def
    using assms(1) by (simp add: awardMatch_lastDrop)
qed

lemma ceiling_survives:
  assumes "b \<in> set (popMatches (now env) (pendingMatches st) (bubbles st))"
    and "settled b" and "b_row b = 0"
  shows "\<exists>b \<in> set (bubbles (fst (awardMatch env d st))). b_active b \<and> \<not> b_isFloating b"
proof -
  let ?post = "popMatches (now env) (pendingMatches st) (bubbles st)"
  from assms(3) have "b \<notin> set (findFloatingBubbles ?post)"
    using findFloatingBubbles_row by blast
  moreover from list_all2_pick [OF awardMatch_rel assms(1)]
  obtain b' where "b' \<in> set (bubbles (fst (awardMatch env d st)))"
    "sameButFloat (\<lambda>b. b \<in> set (findFloatingBubbles ?post)) b b'" by blast
  ultimately show ?thesis using assms(2) unfolding sameButFloat_def settled_def by blast
qed

lemma initGrid_lastDrop: "lastDropTimeRef (fst (initGrid env w d st i)) = now env"
  unfolding initGrid_def Let_def by (simp split: if_split)

lemma no_ceiling_all_orphans:
  assumes "\<not> (\<exists>b \<in> set bs. settled b \<and> b_row b = 0)"
  shows "findFloatingBubbles bs = filter settled bs"
proof -
  have q: "filter (\<lambda>b. b_row b = 0 \<and> b_active b \<and> \<not> b_isFloating b) bs = []"
    using assms by (auto simp: filter_empty_conv settled_def)
  have "(\<lambda>b. b_active b \<and> \<not> b_isFloating b) = settled" by (auto simp: settled_def)
  then show ?thesis unfolding findFloatingBubbles_def Let_def q by simp
qed

lemma award_clears:
  assumes "\<not> (\<exists>b \<in> set (popMatches (now env) (pendingMatches st) (bubbles st)).
                settled b \<and> b_row b = 0)"
  shows "filter (\<lambda>b. b_active b \<and> \<not> b_isFloating b) (bubbles (fst (awardMatch env d st))) = []"
proof -
  let ?post = "popMatches (now env) (pendingMatches st) (bubbles st)"
  have fl: "findFloatingBubbles ?post = filter settled ?post"
    using assms by (rule no_ceiling_all_orphans)
  have "\<not> (b_active b' \<and> \<not> b_isFloating b')"
    if "b' \<in> set (bubbles (fst (awardMatch env d st)))" for b'
  proof -
    from awardMatch_rel [of env st d]
    have "list_all2 (\<lambda>b' b. sameButFloat (\<lambda>b. b \<in> set (findFloatingBubbles ?post)) b b')
            (bubbles (fst (awardMatch env d st))) ?post"
      by (simp add: list_all2_conv_all_nth)
    from list_all2_pick [OF this that] obtain b where b: "b \<in> set ?post"
      "sameButFloat (\<lambda>b. b \<in> set (findFloatingBubbles ?post)) b b'" by blast
    show ?thesis
    proof (cases "settled b")
      case True
      with b(1) have "b \<in> set (findFloatingBubbles ?post)" unfolding fl by simp
      with b(2) show ?thesis unfolding sameButFloat_def by simp
    next
      case False
      with b(2) show ?thesis unfolding sameButFloat_def settled_def by auto
    qed
  qed
  then show ?thesis by (simp add: filter_empty_conv)
qed

lemma completeMatch_lastDrop_reset:
  assumes "userProfile st = Some d"
    and "\<not> (\<exists>b \<in> set (popMatches (now env) (pendingMatches st) (bubbles st)).
                settled b \<and> b_row b = 0)"
  shows "lastDropTimeRef (completeMatch env True st) = now env"
  unfolding completeMatch_def Let_def
  using assms(1) award_clears [OF assms(2), of d]
  by (simp add: initGrid_lastDrop)

lemma addNewRow_first_row:
  assumes "bubbles st \<noteq> []"
  shows "b_row (hd (bubbles (addNewRow env st))) = b_row (hd (bubbles st)) + 1"
proof -
  let ?sh = "shiftDown (gridColsRef st) (canvasWidth env) (bubbles st)"
  have ne: "?sh \<noteq> []" using assms by (simp add: shiftDown_def)
  have h: "b_row (hd ?sh) = b_row (hd (bubbles st)) + 1"
    using assms by (cases "bubbles st") (simp_all add: shiftDown_def Let_def)
  have "bubbles (addNewRow env st) = ?sh \<or> (\<exists>new. bubbles (addNewRow env st) = ?sh @ new)"
    unfolding addNewRow_def Let_def by (simp split: if_split)
  with ne h show ?thesis by auto
qed

lemma playing_fields:
  "userProfile (playing bs pm) = Some Easy" "bubbles (playing bs pm) = bs"
  "pendingMatches (playing bs pm) = pm" "scoreRef (playing bs pm) = 0"
  "hasWonRef (playing bs pm) = False" "lastDropTimeRef (playing bs pm) = 0"
  by (simp_all add: playing_def)

lemma steady_fields:
  "now (steady t) = t" "rnd (steady t) = (\<lambda>_. 1/2)" "canvasWidth (steady t) = 250"
  "canvasHeight (steady t) = 1000" "dateNow (steady t) = 1000"
  by (simp_all add: steady_def)

lemma demo_resolved:
  "completeMatch (steady t) True
      (playing [cell ''a'' 0 0 Red, cell ''b'' 0 1 Red, cell ''c'' 0 2 Red, cell ''d'' 1 0 Blue, cell ''e'' 0 3 Blue]
               [cell ''c'' 0 2 Red, cell ''b'' 0 1 Red, cell ''a'' 0 0 Red])
   = (playing
       [(cell ''a'' 0 0 Red)\<lparr>b_active := False, b_popTime := Some t\<rparr>,
        (cell ''b'' 0 1 Red)\<lparr>b_active := False, b_popTime := Some t\<rparr>,
        (cell ''c'' 0 2 Red)\<lparr>b_active := False, b_popTime := Some t\<rparr>,
        (cell ''d'' 1 0 Blue)\<lparr>b_isFloating := True, b_vx := Some 0, b_vy := Some (- 9 / 2)\<rparr>,
        cell ''e'' 0 3 Blue] [])\<lparr>scoreRef := 1000\<rparr>"
  unfolding completeMatch_def awardMatch_def Let_def playing_fields steady_fields
    demo_post demo_orphans
  by (simp add: playing_def cell_def)

text \<open>
  C8 (as stated, refuted). A match is pending on a board whose last drop was at time 0;
  it is resolved when the clock reads 100000, beyond the drop interval of 60000. The
  reference point of the spawn timer is still 0 afterwards, not the time of the
  resolution, and the auto-drop of that very moment spawns a row: the time spent
  waiting for the answer has counted.
\<close>

theorem spawn_timer_not_reset_counterexample:
  "isQuizActiveRef (playing [cell ''a'' 0 0 Red, cell ''b'' 0 1 Red, cell ''c'' 0 2 Red, cell ''d'' 1 0 Blue, cell ''e'' 0 3 Blue]
                            [cell ''c'' 0 2 Red, cell ''b'' 0 1 Red, cell ''a'' 0 0 Red])
   \<and> lastDropTimeRef (playing [cell ''a'' 0 0 Red, cell ''b'' 0 1 Red, cell ''c'' 0 2 Red, cell ''d'' 1 0 Blue, cell ''e'' 0 3 Blue]
                            [cell ''c'' 0 2 Red, cell ''b'' 0 1 Red, cell ''a'' 0 0 Red]) = 0
   \<and> now (steady 100000) = 100000
   \<and> lastDropTimeRef (completeMatch (steady 100000) True
        (playing [cell ''a'' 0 0 Red, cell ''b'' 0 1 Red, cell ''c'' 0 2 Red, cell ''d'' 1 0 Blue, cell ''e'' 0 3 Blue]
                 [cell ''c'' 0 2 Red, cell ''b'' 0 1 Red, cell ''a'' 0 0 Red])) = 0
   \<and> autoDrop (steady 100000) (completeMatch (steady 100000) True
        (playing [cell ''a'' 0 0 Red, cell ''b'' 0 1 Red, cell ''c'' 0 2 Red, cell ''d'' 1 0 Blue, cell ''e'' 0 3 Blue]
                 [cell ''c'' 0 2 Red, cell ''b'' 0 1 Red, cell ''a'' 0 0 Red]))
       = addNewRow (steady 100000) (completeMatch (steady 100000) True
        (playing [cell ''a'' 0 0 Red, cell ''b'' 0 1 Red, cell ''c'' 0 2 Red, cell ''d'' 1 0 Blue, cell ''e'' 0 3 Blue]
                 [cell ''c'' 0 2 Red, cell ''b'' 0 1 Red, cell ''a'' 0 0 Red]))
   \<and> b_row (hd (bubbles (autoDrop (steady 100000) (completeMatch (steady 100000) True
        (playing [cell ''a'' 0 0 Red, cell ''b'' 0 1 Red, cell ''c'' 0 2 Red, cell ''d'' 1 0 Blue, cell ''e'' 0 3 Blue]
                 [cell ''c'' 0 2 Red, cell ''b'' 0 1 Red, cell ''a'' 0 0 Red]))))) = 1"
proof -
  let ?st0 = "playing [cell ''a'' 0 0 Red, cell ''b'' 0 1 Red, cell ''c'' 0 2 Red, cell ''d'' 1 0 Blue, cell ''e'' 0 3 Blue]
                 [cell ''c'' 0 2 Red, cell ''b'' 0 1 Red, cell ''a'' 0 0 Red]"
  let ?st1 = "completeMatch (steady 100000) True ?st0"
  have q: "isQuizActiveRef ?st0" "lastDropTimeRef ?st0 = 0" by (simp_all add: playing_def)
  have l: "lastDropTimeRef ?st1 = 0" unfolding demo_resolved by (simp add: playing_def)
  have a: "autoDrop (steady 100000) ?st1 = addNewRow (steady 100000) ?st1"
    unfolding demo_resolved autoDrop_def by (simp add: playing_def steady_def)
  have ne: "bubbles ?st1 \<noteq> []" unfolding demo_resolved by (simp add: playing_def)
  have h: "b_row (hd (bubbles ?st1)) = 0" unfolding demo_resolved by (simp add: playing_def cell_def)
  have r: "b_row (hd (bubbles (autoDrop (steady 100000) ?st1))) = 1"
    unfolding a using addNewRow_first_row [OF ne, of "steady 100000"] h by simp
  show ?thesis using q l a r by (simp add: steady_def)
qed

text \<open>
  C8 (amended). While a match is pending the auto-drop leaves the state as it is: no row
  spawns. Resolving the match resets the reference point of the spawn timer only when
  the removal clears the board, which is then reseeded: whenever the removal leaves a
  settled bubble in row 0, \<open>lastDropTimeRef\<close> after \<open>completeMatch(true)\<close> is what it was
  before; when it leaves none (and a profile is set), \<open>lastDropTimeRef\<close> is the time of
  the resolution.
\<close>

theorem quiz_gates_spawn_without_reset:
  "(isQuizActiveRef st \<longrightarrow> autoDrop env st = st)
   \<and> ((\<exists>b \<in> set (popMatches (now env) (pendingMatches st) (bubbles st)).
          settled b \<and> b_row b = 0)
      \<longrightarrow> lastDropTimeRef (completeMatch env True st) = lastDropTimeRef st)
   \<and> (userProfile st = Some d
        \<and> \<not> (\<exists>b \<in> set (popMatches (now env) (pendingMatches st) (bubbles st)).
                settled b \<and> b_row b = 0)
      \<longrightarrow> lastDropTimeRef (completeMatch env True st) = now env)"
proof (intro conjI impI)
  assume "isQuizActiveRef st"
  then show "autoDrop env st = st" by (rule autoDrop_quiz)
next
  assume "\<exists>b \<in> set (popMatches (now env) (pendingMatches st) (bubbles st)).
          settled b \<and> b_row b = 0"
  then obtain b where b: "b \<in> set (popMatches (now env) (pendingMatches st) (bubbles st))"
    "settled b" "b_row b = 0" by blast
  show "lastDropTimeRef (completeMatch env True st) = lastDropTimeRef st"
  proof (cases "userProfile st")
    case None
    then show ?thesis unfolding completeMatch_def Let_def by simp
  next
    case (Some d)
    from completeMatch_lastDrop_kept [OF Some ceiling_survives [OF b]] show ?thesis .
  qed
next
  assume "userProfile st = Some d
        \<and> \<not> (\<exists>b \<in> set (popMatches (now env) (pendingMatches st) (bubbles st)).
                settled b \<and> b_row b = 0)"
  then show "lastDropTimeRef (completeMatch env True st) = now env"
    using completeMatch_lastDrop_reset by blast
qed

theorem quiz_gates_spawn_without_reset_witness:
  "isQuizActiveRef (playing [cell ''a'' 0 0 Red, cell ''b'' 0 1 Red, cell ''c'' 0 2 Red, cell ''d'' 1 0 Blue, cell ''e'' 0 3 Blue]
                            [cell ''c'' 0 2 Red, cell ''b'' 0 1 Red, cell ''a'' 0 0 Red])
   \<and> autoDrop (steady 100000)
        (playing [cell ''a'' 0 0 Red, cell ''b'' 0 1 Red, cell ''c'' 0 2 Red, cell ''d'' 1 0 Blue, cell ''e'' 0 3 Blue]
                 [cell ''c'' 0 2 Red, cell ''b'' 0 1 Red, cell ''a'' 0 0 Red])
       = playing [cell ''a'' 0 0 Red, cell ''b'' 0 1 Red, cell ''c'' 0 2 Red, cell ''d'' 1 0 Blue, cell ''e'' 0 3 Blue]
                 [cell ''c'' 0 2 Red, cell ''b'' 0 1 Red, cell ''a'' 0 0 Red]
   \<and> (\<exists>b \<in> set (popMatches 100000 [cell ''c'' 0 2 Red, cell ''b'' 0 1 Red, cell ''a'' 0 0 Red]
           [cell ''a'' 0 0 Red, cell ''b'' 0 1 Red, cell ''c'' 0 2 Red, cell ''d'' 1 0 Blue, cell ''e'' 0 3 Blue]).
          settled b \<and> b_row b = 0)
   \<and> lastDropTimeRef (completeMatch (steady 100000) True
        (playing [cell ''a'' 0 0 Red, cell ''b'' 0 1 Red, cell ''c'' 0 2 Red, cell ''d'' 1 0 Blue, cell ''e'' 0 3 Blue]
                 [cell ''c'' 0 2 Red, cell ''b'' 0 1 Red, cell ''a'' 0 0 Red])) = 0
   \<and> userProfile (playing [cell ''a'' 0 0 Red, cell ''b'' 0 1 Red, cell ''c'' 0 2 Red]
                           [cell ''c'' 0 2 Red, cell ''b'' 0 1 Red, cell ''a'' 0 0 Red]) = Some Easy
   \<and> \<not> (\<exists>b \<in> set (popMatches 100000 [cell ''c'' 0 2 Red, cell ''b'' 0 1 Red, cell ''a'' 0 0 Red]
           [cell ''a'' 0 0 Red, cell ''b'' 0 1 Red, cell ''c'' 0 2 Red]).
          settled b \<and> b_row b = 0)
   \<and> lastDropTimeRef (completeMatch (steady 100000) True
        (playing [cell ''a'' 0 0 Red, cell ''b'' 0 1 Red, cell ''c'' 0 2 Red]
                 [cell ''c'' 0 2 Red, cell ''b'' 0 1 Red, cell ''a'' 0 0 Red])) = 100000"
proof -
  let ?bs = "[cell ''a'' 0 0 Red, cell ''b'' 0 1 Red, cell ''c'' 0 2 Red, cell ''d'' 1 0 Blue, cell ''e'' 0 3 Blue]"
  let ?cs = "[cell ''a'' 0 0 Red, cell ''b'' 0 1 Red, cell ''c'' 0 2 Red]"
  let ?pm = "[cell ''c'' 0 2 Red, cell ''b'' 0 1 Red, cell ''a'' 0 0 Red]"
  have q: "isQuizActiveRef (playing ?bs ?pm)" by (simp add: playing_def)
  have e: "\<exists>b \<in> set (popMatches 100000 ?pm ?bs). settled b \<and> b_row b = 0"
    unfolding demo_post by (simp add: cell_def settled_def)
  have n: "\<not> (\<exists>b \<in> set (popMatches 100000 ?pm ?cs). settled b \<and> b_row b = 0)"
    by (simp add: popMatches_def cell_def settled_def)
  from quiz_gates_spawn_without_reset [of "playing ?bs ?pm" "steady 100000"]
  have 1: "autoDrop (steady 100000) (playing ?bs ?pm) = playing ?bs ?pm"
    and 2: "lastDropTimeRef (completeMatch (steady 100000) True (playing ?bs ?pm)) = 0"
    using q e by (simp_all add: playing_fields steady_fields)
  from quiz_gates_spawn_without_reset [of "playing ?cs ?pm" "steady 100000" Easy]
  have 3: "lastDropTimeRef (completeMatch (steady 100000) True (playing ?cs ?pm)) = 100000"
    using n by (simp add: playing_fields steady_fields)
  show ?thesis using q e n 1 2 3 by (simp add: playing_fields)
qed

section \<open>Snapping into a full scan window\<close>

text \<open>
  The snap scan looks at the cells of rows 0 to 19. \<open>covered\<close>: a settled bubble sits
  in the cell; \<open>windowFull\<close>: every cell of the scan window is covered. \<open>packedBoard\<close> is
  the board with one settled bubble in each cell of the window.
\<close>

definition covered :: "Bubble list \<Rightarrow> nat \<Rightarrow> nat \<Rightarrow> bool" where
  "covered bs r c \<longleftrightarrow> (\<exists>b \<in> set bs. settled b \<and> b_row b = int r \<and> b_col b = int c)"

definition windowFull :: "nat \<Rightarrow> Bubble list \<Rightarrow> bool" where
  "windowFull cols bs \<longleftrightarrow>
     (\<forall>r < GRID_ROWS + 10. \<forall>c < (if js_rem (int r) 2 \<noteq> 0 then cols - 1 else cols).
        covered bs r c)"

definition packedBoard :: "nat \<Rightarrow> Bubble list" where
  "packedBoard cols =
     concat (map (\<lambda>r. map (\<lambda>c. cell (toString r @ ''-'' @ toString c) (int r) (int c) Red)
                          [0 ..< (if js_rem (int r) 2 \<noteq> 0 then cols - 1 else cols)])
               [0 ..< GRID_ROWS + 10])"

lemma snapCell_occupied:
  assumes "covered bs r c"
  shows "snapCell cols width bs ball r c best = best"
proof -
  from assms have "list_ex (\<lambda>b. b_active b \<and> \<not> b_isFloating b \<and> b_row b = int r \<and> b_col b = int c) bs"
    unfolding covered_def settled_def list_ex_iff by blast
  then show ?thesis unfolding snapCell_def Let_def by simp
qed

lemma snapScan_full:
  assumes "windowFull cols bs"
  shows "snapScan cols width bs ball
           = \<lparr>bestDist = None, bestRow = 0, bestCol = 0, bestX = 0, bestY = 0\<rparr>"
  unfolding snapScan_def
proof (rule fold_invariant [where Q = "\<lambda>best. best = \<lparr>bestDist = None, bestRow = 0, bestCol = 0, bestX = 0, bestY = 0\<rparr>"])
  show "\<lparr>bestDist = None, bestRow = 0, bestCol = 0, bestX = 0, bestY = 0\<rparr>
          = \<lparr>bestDist = None, bestRow = 0, bestCol = 0, bestX = 0, bestY = 0\<rparr>" by simp
next
  fix r acc
  assume r: "r \<in> set [0 ..< GRID_ROWS + 10]"
    and acc: "acc = \<lparr>bestDist = None, bestRow = 0, bestCol = 0, bestX = 0, bestY = 0\<rparr>"
  show "fold (snapCell cols width bs ball r)
          [0 ..< (if js_rem (int r) 2 \<noteq> 0 then cols - 1 else cols)] acc
        = \<lparr>bestDist = None, bestRow = 0, bestCol = 0, bestX = 0, bestY = 0\<rparr>"
  proof (rule fold_invariant [where Q = "\<lambda>best. best = \<lparr>bestDist = None, bestRow = 0, bestCol = 0, bestX = 0, bestY = 0\<rparr>"])
    show "acc = \<lparr>bestDist = None, bestRow = 0, bestCol = 0, bestX = 0, bestY = 0\<rparr>" by (rule acc)
  next
    fix c b
    assume c: "c \<in> set [0 ..< (if js_rem (int r) 2 \<noteq> 0 then cols - 1 else cols)]"
      and b: "b = \<lparr>bestDist = None, bestRow = 0, bestCol = 0, bestX = 0, bestY = 0\<rparr>"
    from r c assms have "covered bs r c" unfolding windowFull_def by simp
    then show "snapCell cols width bs ball r c b
                 = \<lparr>bestDist = None, bestRow = 0, bestCol = 0, bestX = 0, bestY = 0\<rparr>"
      using b by (simp add: snapCell_occupied)
  qed
qed

lemma checkMatches_bubbles: "bubbles (snd (checkMatches b st)) = bubbles st"
  unfolding checkMatches_def Let_def triggerQuiz_def by (simp split: if_split)

lemma snapProjectile_bubbles:
  "bubbles (snapProjectile env st) =
     bubbles st @
       [let best = snapScan (gridColsRef st) (canvasWidth env) (bubbles st) (ballPos st)
        in newBubble (toString (bestRow best) @ ''-'' @ toString (bestCol best) @ ''-''
                              @ toString (dateNow env))
             (int (bestRow best)) (int (bestCol best)) (bestX best, bestY best)
             (currentAmmo st)]"
  unfolding snapProjectile_def Let_def by (simp add: checkMatches_bubbles split: if_split)

lemma second_settler:
  assumes "b \<in> set bs" "settled b" "settled n" "b_row n = b_row b" "b_col n = b_col b"
  shows "\<not> cellsUnique (bs @ [n])"
proof -
  from assms(1,2) have "(b_row b, b_col b) \<in> set (map (\<lambda>b. (b_row b, b_col b)) (filter settled bs))"
    by force
  then show ?thesis unfolding cellsUnique_def using assms(3,4,5) by simp
qed

lemma snapProjectile_full_window:
  assumes "windowFull (gridColsRef st) (bubbles st)" "gridColsRef st > 0"
  shows "\<not> cellsUnique (bubbles (snapProjectile env st))"
proof -
  from assms have "covered (bubbles st) 0 0"
    unfolding windowFull_def GRID_ROWS_def by (simp add: js_rem_def)
  then obtain b where b: "b \<in> set (bubbles st)" "settled b" "b_row b = 0" "b_col b = 0"
    unfolding covered_def by auto
  show ?thesis
    unfolding snapProjectile_bubbles snapScan_full [OF assms(1)] Let_def
    by (rule second_settler [OF b(1,2)]) (simp_all add: newBubble_def settled_def b)
qed

lemma packedBoard_full: "windowFull cols (packedBoard cols)"
  unfolding windowFull_def covered_def packedBoard_def
  by (auto simp: cell_def settled_def)


lemma grid_cells_distinct:
  "distinct (concat (map (\<lambda>r. map (\<lambda>c. (int r, int c)) [0 ..< k r]) [0 ..< n]))"
proof (induction n)
  case 0
  show ?case by simp
next
  case (Suc n)
  have "set (concat (map (\<lambda>r. map (\<lambda>c. (int r, int c)) [0 ..< k r]) [0 ..< n]))
          \<inter> set (map (\<lambda>c. (int n, int c)) [0 ..< k n]) = {}"
    by auto
  with Suc show ?case by (simp add: distinct_map inj_on_def)
qed

lemma packedBoard_unique: "cellsUnique (packedBoard cols)"
proof -
  have all: "\<forall>b \<in> set (packedBoard cols). settled b"
    unfolding packedBoard_def by (auto simp: cell_def settled_def)
  then have f: "filter settled (packedBoard cols) = packedBoard cols" by simp
  have "map (\<lambda>b. (b_row b, b_col b)) (packedBoard cols)
          = concat (map (\<lambda>r. map (\<lambda>c. (int r, int c))
                      [0 ..< (if js_rem (int r) 2 \<noteq> 0 then cols - 1 else cols)])
                  [0 ..< GRID_ROWS + 10])"
    unfolding packedBoard_def by (simp add: map_concat comp_def cell_def)
  then show ?thesis unfolding cellsUnique_def f by (simp only: grid_cells_distinct)
qed

text \<open>
  On the packed board, where no two settled bubbles share a cell, the scan finds no free
  cell and the snapped bubble is put into the occupied cell (0, 0).
\<close>

lemma snapProjectile_packed:
  "cellsUnique (bubbles (playing (packedBoard 5) []))
   \<and> \<not> cellsUnique (bubbles (snapProjectile (steady 1000) (playing (packedBoard 5) [])))"
proof
  show "cellsUnique (bubbles (playing (packedBoard 5) []))"
    by (simp add: playing_fields packedBoard_unique)
  have "windowFull (gridColsRef (playing (packedBoard 5) [])) (bubbles (playing (packedBoard 5) []))"
    by (simp add: playing_def packedBoard_full)
  moreover have "gridColsRef (playing (packedBoard 5) []) > 0" by (simp add: playing_def)
  ultimately show "\<not> cellsUnique (bubbles (snapProjectile (steady 1000) (playing (packedBoard 5) [])))"
    by (rule snapProjectile_full_window)
qed

section \<open>Cell uniqueness: seeding, row spawn, and a snap into a full window\<close>

subsection \<open>The seeded grid has unique cells\<close>

lemma fold_upt_invariant:
  assumes "Q 0 a" and "\<And>c acc. c < n \<Longrightarrow> Q c acc \<Longrightarrow> Q (Suc c) (f c acc)"
  shows "Q n (fold f [0 ..< n] a)"
  using assms
proof (induction n)
  case 0
  then show ?case by simp
next
  case (Suc n)
  have "Q n (fold f [0 ..< n] a)" using Suc.IH Suc.prems by simp
  then show ?case using Suc.prems(2) [of n] by simp
qed

definition gridInv :: "nat \<Rightarrow> nat \<Rightarrow> Bubble list \<Rightarrow> bool" where
  "gridInv r c bs \<longleftrightarrow>
     (\<forall>b \<in> set bs. settled b \<and> 0 \<le> b_row b \<and> 0 \<le> b_col b
        \<and> (b_row b < int r \<or> (b_row b = int r \<and> b_col b < int c)))
     \<and> distinct (map (\<lambda>b. (b_row b, b_col b)) bs)"

lemma gridInv_append:
  assumes "gridInv r c bs"
  shows "gridInv r (Suc c) (bs @ [newBubble i (int r) (int c) pos k])"
proof -
  let ?n = "newBubble i (int r) (int c) pos k"
  have n: "settled ?n" "b_row ?n = int r" "b_col ?n = int c"
    by (simp_all add: newBubble_def settled_def)
  from assms have old: "\<forall>b \<in> set bs. settled b \<and> 0 \<le> b_row b \<and> 0 \<le> b_col b
        \<and> (b_row b < int r \<or> (b_row b = int r \<and> b_col b < int c))"
    and d: "distinct (map (\<lambda>b. (b_row b, b_col b)) bs)"
    unfolding gridInv_def by blast+
  have fresh: "(int r, int c) \<notin> set (map (\<lambda>b. (b_row b, b_col b)) bs)"
    using old by auto
  have 1: "\<forall>b \<in> set (bs @ [?n]). settled b \<and> 0 \<le> b_row b \<and> 0 \<le> b_col b
        \<and> (b_row b < int r \<or> (b_row b = int r \<and> b_col b < int (Suc c)))"
    using old n by auto
  have 2: "distinct (map (\<lambda>b. (b_row b, b_col b)) (bs @ [?n]))"
    using d fresh n by simp
  show ?thesis unfolding gridInv_def using 1 2 by blast
qed

lemma gridInv_skip: "gridInv r c bs \<Longrightarrow> gridInv r (Suc c) bs"
  unfolding gridInv_def by auto

lemma gridInv_next_row: "gridInv r c bs \<Longrightarrow> gridInv (Suc r) 0 bs"
  unfolding gridInv_def by auto

lemma initCell_gridInv:
  assumes "gridInv row c (fst acc)"
  shows "gridInv row (Suc c) (fst (initCell w cols pal dens dnow r row c acc))"
proof -
  from initCell_shape [of w cols pal dens dnow r row c acc]
  consider "fst (initCell w cols pal dens dnow r row c acc) = fst acc"
    | i pos k where "fst (initCell w cols pal dens dnow r row c acc)
                       = fst acc @ [newBubble i (int row) (int c) pos k]"
    by blast
  then show ?thesis
  proof cases
    case 1
    with assms show ?thesis by (simp add: gridInv_skip)
  next
    case 2
    with assms show ?thesis by (simp add: gridInv_append)
  qed
qed

lemma initRow_gridInv:
  assumes "gridInv row 0 (fst acc)"
  shows "gridInv (Suc row) 0 (fst (initRow w cols pal dens dnow r row acc))"
proof -
  have "gridInv row n (fst (fold (initCell w cols pal dens dnow r row) [0 ..< n] acc))" for n
    by (rule fold_upt_invariant [where Q = "\<lambda>c acc. gridInv row c (fst acc)"])
       (use assms initCell_gridInv in auto)
  then show ?thesis unfolding initRow_def by (rule gridInv_next_row)
qed

lemma initGrid_gridInv:
  "gridInv (initialRows d) 0 (bubbles (fst (initGrid env w d st i)))"
proof -
  have "gridInv n 0 (fst (fold (initRow w cols pal dens dnow r) [0 ..< n] ([], j)))"
    for n cols pal dens dnow r j
  proof (rule fold_upt_invariant [where Q = "\<lambda>r acc. gridInv r 0 (fst acc)"])
    show "gridInv 0 0 (fst ([], j::nat))" by (simp add: gridInv_def)
  next
    fix c and acc :: "Bubble list \<times> nat"
    assume "gridInv c 0 (fst acc)"
    then show "gridInv (Suc c) 0 (fst (initRow w cols pal dens dnow r c acc))"
      by (rule initRow_gridInv)
  qed
  then show ?thesis by (simp only: initGrid_bubbles)
qed

lemma gridInv_unique: "gridInv r c bs \<Longrightarrow> cellsUnique bs"
proof -
  assume g: "gridInv r c bs"
  then have "filter settled bs = bs" unfolding gridInv_def by simp
  with g show ?thesis unfolding cellsUnique_def gridInv_def by simp
qed

lemma initGrid_unique: "cellsUnique (bubbles (fst (initGrid env w d st i)))"
  using initGrid_gridInv gridInv_unique by blast


lemma gridInv_rows:
  "gridInv r 0 bs \<Longrightarrow> \<forall>b \<in> set bs. 0 \<le> b_row b \<and> b_row b < int r"
  unfolding gridInv_def by auto

subsection \<open>Row spawn keeps cells unique\<close>

text \<open>On a board whose rows are not negative, a row spawn keeps cells unique.\<close>

lemma shiftDown_settled_cells:
  "map (\<lambda>b. (b_row b, b_col b)) (filter settled (shiftDown cols w bs))
     = map (\<lambda>p. (fst p + 1, snd p)) (map (\<lambda>b. (b_row b, b_col b)) (filter settled bs))"
  unfolding shiftDown_def by (induction bs) (simp_all add: settled_def Let_def)

lemma shiftDown_unique:
  assumes "cellsUnique bs"
  shows "cellsUnique (shiftDown cols w bs)"
proof -
  have "inj_on (\<lambda>p :: int \<times> int. (fst p + 1, snd p)) A" for A
    by (auto simp: inj_on_def prod_eq_iff)
  then have "distinct (map (\<lambda>p. (fst p + 1, snd p)) xs)" if "distinct xs"
    for xs :: "(int \<times> int) list"
    using that by (simp only: distinct_map)
  then show ?thesis using assms unfolding cellsUnique_def shiftDown_settled_cells by blast
qed

lemma shiftDown_rows:
  "b \<in> set (shiftDown cols w bs) \<Longrightarrow> \<exists>b0 \<in> set bs. b_row b = b_row b0 + 1"
  unfolding shiftDown_def by (auto simp: Let_def)

definition rowInv :: "nat \<Rightarrow> Bubble list \<Rightarrow> bool" where
  "rowInv c bs \<longleftrightarrow>
     (\<forall>b \<in> set bs. settled b \<and> b_row b = 0 \<and> b_col b < int c)
     \<and> distinct (map b_col bs)"

lemma newRowCell_shape:
  "fst (newRowCell board w cols d dens dnow r c acc) = fst acc
   \<or> (\<exists>i pos k. fst (newRowCell board w cols d dens dnow r c acc)
                    = fst acc @ [newBubble i 0 (int c) pos k])"
proof (cases "r (snd acc) < dens")
  case True
  then show ?thesis unfolding newRowCell_def Let_def by (simp only: if_True fst_conv) blast
next
  case False
  then show ?thesis unfolding newRowCell_def Let_def by (simp only: if_False fst_conv) simp
qed

lemma newRowCell_rowInv:
  assumes "rowInv c (fst acc)"
  shows "rowInv (Suc c) (fst (newRowCell board w cols d dens dnow r c acc))"
proof -
  from assms have old: "\<forall>b \<in> set (fst acc). settled b \<and> b_row b = 0 \<and> b_col b < int c"
    and dc: "distinct (map b_col (fst acc))" unfolding rowInv_def by blast+
  from newRowCell_shape [of board w cols d dens dnow r c acc]
  consider "fst (newRowCell board w cols d dens dnow r c acc) = fst acc"
    | i pos k where "fst (newRowCell board w cols d dens dnow r c acc)
                       = fst acc @ [newBubble i 0 (int c) pos k]"
    by blast
  then show ?thesis
  proof cases
    case 1
    then show ?thesis unfolding rowInv_def using old dc by auto
  next
    case 2
    have n: "settled (newBubble i 0 (int c) pos k)" "b_row (newBubble i 0 (int c) pos k) = 0"
      "b_col (newBubble i 0 (int c) pos k) = int c"
      by (simp_all add: newBubble_def settled_def)
    have "int c \<notin> set (map b_col (fst acc))" using old by auto
    then show ?thesis unfolding rowInv_def 2 using old dc n by auto
  qed
qed

lemma newRow_rowInv:
  "rowInv n (fst (fold (newRowCell board w cols d dens dnow r) [0 ..< n] ([], j)))"
proof (rule fold_upt_invariant [where Q = "\<lambda>c acc. rowInv c (fst acc)"])
  show "rowInv 0 (fst ([], j::nat))" by (simp add: rowInv_def)
next
  fix c and acc :: "Bubble list \<times> nat"
  assume "rowInv c (fst acc)"
  then show "rowInv (Suc c) (fst (newRowCell board w cols d dens dnow r c acc))"
    by (rule newRowCell_rowInv)
qed

lemma addNewRow_bubbles:
  "bubbles (addNewRow env st) = shiftDown (gridColsRef st) (canvasWidth env) (bubbles st)
   \<or> (\<exists>d dens. bubbles (addNewRow env st) =
         shiftDown (gridColsRef st) (canvasWidth env) (bubbles st)
         @ fst (fold (newRowCell (shiftDown (gridColsRef st) (canvasWidth env) (bubbles st))
                        (canvasWidth env) (gridColsRef st) d dens (dateNow env) (rnd env))
                  [0 ..< gridColsRef st] ([], 0)))"
  unfolding addNewRow_def Let_def by (simp split: if_split) blast

lemma append_row_unique:
  assumes u: "cellsUnique sh" and lo: "\<forall>b \<in> set sh. 1 \<le> b_row b" and r: "rowInv n new"
  shows "cellsUnique (sh @ new)"
proof -
  from r have all: "\<forall>b \<in> set new. settled b \<and> b_row b = 0" and dc: "distinct (map b_col new)"
    unfolding rowInv_def by blast+
  from all have f: "filter settled new = new" by simp
  have dn: "distinct (map (\<lambda>b. (b_row b, b_col b)) new)"
    using dc all by (simp add: distinct_map inj_on_def)
  have "set (map (\<lambda>b. (b_row b, b_col b)) (filter settled sh))
          \<inter> set (map (\<lambda>b. (b_row b, b_col b)) new) = {}"
    using lo all by fastforce
  with u dn show ?thesis unfolding cellsUnique_def by (simp add: f)
qed

lemma addNewRow_unique:
  assumes "cellsUnique (bubbles st)" and "\<forall>b \<in> set (bubbles st). 0 \<le> b_row b"
  shows "cellsUnique (bubbles (addNewRow env st))"
proof -
  let ?sh = "shiftDown (gridColsRef st) (canvasWidth env) (bubbles st)"
  have u: "cellsUnique ?sh" using assms(1) by (rule shiftDown_unique)
  have lo: "\<forall>b \<in> set ?sh. 1 \<le> b_row b" using shiftDown_rows assms(2) by fastforce
  from addNewRow_bubbles [of env st] show ?thesis
  proof
    assume "bubbles (addNewRow env st) = ?sh"
    with u show ?thesis by simp
  next
    assume "\<exists>d dens. bubbles (addNewRow env st) =
         ?sh @ fst (fold (newRowCell ?sh (canvasWidth env) (gridColsRef st) d dens
                            (dateNow env) (rnd env)) [0 ..< gridColsRef st] ([], 0))"
    then obtain d dens where "bubbles (addNewRow env st) =
         ?sh @ fst (fold (newRowCell ?sh (canvasWidth env) (gridColsRef st) d dens
                            (dateNow env) (rnd env)) [0 ..< gridColsRef st] ([], 0))" by blast
    then show ?thesis using append_row_unique [OF u lo newRow_rowInv] by simp
  qed
qed


subsection \<open>A run that fills the scan window\<close>

text \<open>
  \<open>descend k\<close>: a game of difficulty \<open>Easy\<close> on a canvas 250 wide and 1000 high (five
  columns), seeded by \<open>initGrid\<close> at time 0 and left alone for \<open>k\<close> auto-drops, one every
  100000 ms, with every draw 1/2 (below the density, so every cell is populated). After
  14 drops the six seeded rows are rows 14 to 19, the lowest row is still above the
  danger line, and every cell of the scan window is covered.
\<close>

definition colsOf :: "nat \<Rightarrow> nat \<Rightarrow> nat" where
  "colsOf cols r = (if js_rem (int r) 2 \<noteq> 0 then cols - 1 else cols)"

definition covInv :: "nat \<Rightarrow> nat \<Rightarrow> nat \<Rightarrow> Bubble list \<Rightarrow> bool" where
  "covInv cols r c bs \<longleftrightarrow>
     (\<forall>r' c'. (r' < r \<and> c' < colsOf cols r') \<or> (r' = r \<and> c' < c) \<longrightarrow> covered bs r' c')"

lemma covered_append: "covered bs r c \<Longrightarrow> covered (bs @ xs) r c"
  unfolding covered_def by auto

lemma covered_new: "covered (bs @ [newBubble i (int r) (int c) pos k]) r c"
  unfolding covered_def by (simp add: newBubble_def settled_def)

lemma initCell_pass:
  assumes "r (snd acc) < dens"
  shows "\<exists>i pos k. fst (initCell w cols pal dens dnow r row c acc)
                    = fst acc @ [newBubble i (int row) (int c) pos k]"
  using assms unfolding initCell_def Let_def by (simp only: if_True fst_conv) blast

lemma initCell_cover:
  assumes pass: "\<forall>i. r i < dens" and inv: "covInv cols row c (fst acc)"
  shows "covInv cols row (Suc c) (fst (initCell w cols pal dens dnow r row c acc))"
proof -
  from pass have p: "r (snd acc) < dens" by simp
  have "\<exists>i pos k. fst (initCell w cols pal dens dnow r row c acc)
                    = fst acc @ [newBubble i (int row) (int c) pos k]"
    using p by (rule initCell_pass)
  then obtain i pos k where
    e: "fst (initCell w cols pal dens dnow r row c acc)
          = fst acc @ [newBubble i (int row) (int c) pos k]" by blast
  show ?thesis unfolding covInv_def e
  proof (intro allI impI)
    fix r' c' assume h: "(r' < row \<and> c' < colsOf cols r') \<or> (r' = row \<and> c' < Suc c)"
    show "covered (fst acc @ [newBubble i (int row) (int c) pos k]) r' c'"
    proof (cases "r' = row \<and> c' = c")
      case True
      then show ?thesis by (simp add: covered_new)
    next
      case False
      with h have "(r' < row \<and> c' < colsOf cols r') \<or> (r' = row \<and> c' < c)" by auto
      with inv have "covered (fst acc) r' c'" unfolding covInv_def by blast
      then show ?thesis by (rule covered_append)
    qed
  qed
qed

lemma initRow_cover:
  assumes pass: "\<forall>i. r i < dens" and inv: "covInv cols row 0 (fst acc)"
  shows "covInv cols (Suc row) 0 (fst (initRow w cols pal dens dnow r row acc))"
proof -
  have "covInv cols row n (fst (fold (initCell w cols pal dens dnow r row) [0 ..< n] acc))" for n
  proof (rule fold_upt_invariant [where Q = "\<lambda>c acc. covInv cols row c (fst acc)"])
    show "covInv cols row 0 (fst acc)" by (rule inv)
  next
    fix c and a :: "Bubble list \<times> nat"
    assume "covInv cols row c (fst a)"
    with pass show "covInv cols row (Suc c) (fst (initCell w cols pal dens dnow r row c a))"
      by (rule initCell_cover)
  qed
  then have "covInv cols row (colsOf cols row) (fst (initRow w cols pal dens dnow r row acc))"
    unfolding initRow_def colsOf_def .
  then show ?thesis unfolding covInv_def by (auto simp: less_Suc_eq)
qed

lemma initGrid_cover:
  assumes "\<forall>i. rnd env i < density d"
  shows "covInv (nat (min MAX_GRID_COLS (max 5 \<lfloor>(w - 40) / (BUBBLE_RADIUS * 2.1)\<rfloor>)))
           (initialRows d) 0 (bubbles (fst (initGrid env w d st i)))"
proof -
  have "covInv cols n 0 (fst (fold (initRow w cols pal (density d) dnow (rnd env)) [0 ..< n] ([], j)))"
    for n cols pal dnow j
  proof (rule fold_upt_invariant [where Q = "\<lambda>r acc. covInv cols r 0 (fst acc)"])
    show "covInv cols 0 0 (fst ([], j::nat))" by (simp add: covInv_def)
  next
    fix c and acc :: "Bubble list \<times> nat"
    assume "covInv cols c 0 (fst acc)"
    with assms show "covInv cols (Suc c) 0 (fst (initRow w cols pal (density d) dnow (rnd env) c acc))"
      by (rule initRow_cover)
  qed
  then show ?thesis by (simp only: initGrid_bubbles)
qed

lemma shiftDown_cover: "covered bs r c \<Longrightarrow> covered (shiftDown cols w bs) (Suc r) c"
  unfolding covered_def shiftDown_def by (auto simp: settled_def Let_def)

lemma addNewRow_cover_shift:
  assumes "covered (bubbles st) r c"
  shows "covered (bubbles (addNewRow env st)) (Suc r) c"
  using addNewRow_bubbles [of env st] shiftDown_cover [OF assms] covered_append by metis

lemma newRowCell_pass:
  assumes "r (snd acc) < dens"
  shows "\<exists>i pos k. fst (newRowCell board w cols d dens dnow r c acc)
                    = fst acc @ [newBubble i 0 (int c) pos k]"
  using assms unfolding newRowCell_def Let_def by (simp only: if_True fst_conv) blast

lemma newRow_cover:
  assumes pass: "\<forall>i. r i < dens"
  shows "\<forall>c' < n. covered (fst (fold (newRowCell board w cols d dens dnow r) [0 ..< n] ([], j))) 0 c'"
proof (rule fold_upt_invariant [where Q = "\<lambda>c acc. \<forall>c' < c. covered (fst acc) 0 c'"])
  show "\<forall>c' < 0. covered (fst ([], j::nat)) 0 c'" by simp
next
  fix c and acc :: "Bubble list \<times> nat"
  assume inv: "\<forall>c' < c. covered (fst acc) 0 c'"
  from pass have p: "r (snd acc) < dens" by simp
  have "\<exists>i pos k. fst (newRowCell board w cols d dens dnow r c acc)
                    = fst acc @ [newBubble i 0 (int c) pos k]"
    using p by (rule newRowCell_pass)
  then obtain i pos k where
    e: "fst (newRowCell board w cols d dens dnow r c acc)
          = fst acc @ [newBubble i 0 (int c) pos k]" by blast
  show "\<forall>c' < Suc c. covered (fst (newRowCell board w cols d dens dnow r c acc)) 0 c'"
    unfolding e
  proof (intro allI impI)
    fix c' assume "c' < Suc c"
    then consider "c' = c" | "c' < c" by linarith
    then show "covered (fst acc @ [newBubble i 0 (int c) pos k]) 0 c'"
    proof cases
      case 1
      then show ?thesis using covered_new [of "fst acc" i 0 c pos k] by simp
    next
      case 2
      with inv show ?thesis by (simp add: covered_append)
    qed
  qed
qed


lemma sqrt3_bound: "sqrt 3 < 7 / 4"
  by (rule real_less_lsqrt) (simp_all add: power2_eq_square)

lemma shiftDown_y:
  assumes "b \<in> set (shiftDown cols w bs)"
  shows "\<exists>b0 \<in> set bs. b_y b = BUBBLE_RADIUS + real_of_int (b_row b0 + 1) * ROW_HEIGHT"
  using assms unfolding shiftDown_def getBubblePos_def by (auto simp: Let_def)

lemma maxAbove_bounded:
  assumes "\<forall>y \<in> set ys. y \<le> ceil"
  shows "\<not> maxAbove ys ceil"
proof (cases "ys = []")
  case True
  then show ?thesis by (simp add: maxAbove_def)
next
  case False
  then have "Max (set ys) \<le> ceil" using assms by simp
  then have "\<not> ceil < Max (set ys)" by (simp only: not_less)
  then show ?thesis unfolding maxAbove_def using False by simp
qed

lemma no_game_over:
  assumes rows: "\<forall>b \<in> set bs. b_row b < 19" and h: "1000 \<le> height"
  shows "\<not> maxAbove (map b_y (filter b_active (shiftDown cols w bs)))
            (height - SLINGSHOT_BOTTOM_OFFSET - 80)"
proof (rule maxAbove_bounded, rule ballI)
  fix y assume "y \<in> set (map b_y (filter b_active (shiftDown cols w bs)))"
  then obtain b where "b \<in> set (shiftDown cols w bs)" "y = b_y b" by auto
  with shiftDown_y obtain b0 where b0: "b0 \<in> set bs"
    and y: "y = BUBBLE_RADIUS + real_of_int (b_row b0 + 1) * ROW_HEIGHT" by blast
  from rows b0 have "b_row b0 + 1 \<le> 19" by fastforce
  then have r: "real_of_int (b_row b0 + 1) \<le> 19" by linarith
  have rh: "0 \<le> ROW_HEIGHT" "ROW_HEIGHT \<le> 35"
    using sqrt3_bound by (simp_all add: ROW_HEIGHT_def BUBBLE_RADIUS_def)
  have "real_of_int (b_row b0 + 1) * ROW_HEIGHT \<le> 19 * ROW_HEIGHT"
    using r rh(1) by (rule mult_right_mono)
  also have "\<dots> \<le> 19 * 35" using rh(2) by simp
  finally have "y \<le> 20 + 19 * 35" unfolding y by (simp add: BUBBLE_RADIUS_def)
  then show "y \<le> height - SLINGSHOT_BOTTOM_OFFSET - 80"
    using h by (simp add: SLINGSHOT_BOTTOM_OFFSET_def)
qed

lemma addNewRow_spawn:
  assumes "\<not> maxAbove (map b_y (filter b_active
                 (shiftDown (gridColsRef st) (canvasWidth env) (bubbles st))))
              (canvasHeight env - SLINGSHOT_BOTTOM_OFFSET - 80)"
    and "userProfile st = Some d"
  shows "addNewRow env st =
           st\<lparr>bubbles := shiftDown (gridColsRef st) (canvasWidth env) (bubbles st)
                  @ fst (fold (newRowCell (shiftDown (gridColsRef st) (canvasWidth env) (bubbles st))
                                 (canvasWidth env) (gridColsRef st) d (density d)
                                 (dateNow env) (rnd env))
                           [0 ..< gridColsRef st] ([], 0)),
               lastDropTimeRef := now env\<rparr>"
  using assms unfolding addNewRow_def Let_def by simp


fun descend :: "nat \<Rightarrow> GameState" where
  "descend 0 = fst (initGrid (steady 0) 250 Easy (playing [] []) 0)"
| "descend (Suc k) = autoDrop (steady (100000 * real (Suc k))) (descend k)"

definition chainInv :: "nat \<Rightarrow> GameState \<Rightarrow> bool" where
  "chainInv k st \<longleftrightarrow>
     \<not> isPaused st \<and> \<not> gameOver st \<and> userProfile st = Some Easy
     \<and> \<not> isQuizActiveRef st \<and> \<not> isPinching st \<and> \<not> isFlying st \<and> \<not> gameWonSeen st
     \<and> lastDropTimeRef st = 100000 * real k \<and> gridColsRef st = 5
     \<and> (\<forall>b \<in> set (bubbles st). 0 \<le> b_row b \<and> b_row b < int (6 + k))
     \<and> cellsUnique (bubbles st)
     \<and> (\<forall>r c. r < k \<and> c < 5 \<longrightarrow> covered (bubbles st) r c)
     \<and> (\<forall>r c. r < 6 \<and> c < colsOf 5 r \<longrightarrow> covered (bubbles st) (r + k) c)"

lemma initGrid_fields:
  "isPaused (fst (initGrid env w d st i)) = isPaused st"
  "gameOver (fst (initGrid env w d st i)) = False"
  "userProfile (fst (initGrid env w d st i)) = userProfile st"
  "isQuizActiveRef (fst (initGrid env w d st i)) = isQuizActiveRef st"
  "isPinching (fst (initGrid env w d st i)) = isPinching st"
  "isFlying (fst (initGrid env w d st i)) = isFlying st"
  "gameWonSeen (fst (initGrid env w d st i)) = gameWonSeen st"
  "lastDropTimeRef (fst (initGrid env w d st i)) = now env"
  "gridColsRef (fst (initGrid env w d st i))
     = nat (min MAX_GRID_COLS (max 5 \<lfloor>(w - 40) / (BUBBLE_RADIUS * 2.1)\<rfloor>))"
  unfolding initGrid_def Let_def by (simp_all split: if_split)

lemma cols_250: "nat (min MAX_GRID_COLS (max 5 \<lfloor>(250 - 40) / (BUBBLE_RADIUS * 2.1)\<rfloor>)) = 5"
  by (simp add: MAX_GRID_COLS_def BUBBLE_RADIUS_def)

lemma chainInv_start: "chainInv 0 (descend 0)"
proof -
  let ?st = "fst (initGrid (steady 0) 250 Easy (playing [] []) 0)"
  have pass: "\<forall>i. rnd (steady 0) i < density Easy" by (simp add: steady_def)
  have g: "gridInv 6 0 (bubbles ?st)" using initGrid_gridInv [of Easy] by simp
  have c: "covInv 5 6 0 (bubbles ?st)"
    using initGrid_cover [OF pass, of 250] unfolding cols_250 by simp
  have 1: "\<forall>b \<in> set (bubbles ?st). 0 \<le> b_row b \<and> b_row b < int (6 + 0)"
    using gridInv_rows [OF g] by simp
  have 2: "cellsUnique (bubbles ?st)" using g by (rule gridInv_unique)
  have 3: "\<forall>r c. r < 6 \<and> c < colsOf 5 r \<longrightarrow> covered (bubbles ?st) (r + 0) c"
    using c unfolding covInv_def by simp
  have 4: "\<forall>r c. r < (0::nat) \<and> c < (5::nat) \<longrightarrow> covered (bubbles ?st) r c" by simp
  have f: "\<not> isPaused ?st" "\<not> gameOver ?st" "userProfile ?st = Some Easy"
    "\<not> isQuizActiveRef ?st" "\<not> isPinching ?st" "\<not> isFlying ?st" "\<not> gameWonSeen ?st"
    "lastDropTimeRef ?st = 100000 * real 0" "gridColsRef ?st = 5"
    unfolding initGrid_fields cols_250 by (simp_all add: playing_def steady_def)
  show ?thesis unfolding chainInv_def descend.simps
    by (intro conjI f 1 2 3 4)
qed


lemma chainInvE:
  assumes "chainInv k st"
  obtains "\<not> isPaused st" and "\<not> gameOver st" and "userProfile st = Some Easy"
    and "\<not> isQuizActiveRef st" and "\<not> isPinching st" and "\<not> isFlying st"
    and "\<not> gameWonSeen st"
    and "lastDropTimeRef st = 100000 * real k" and "gridColsRef st = 5"
    and "\<forall>b \<in> set (bubbles st). 0 \<le> b_row b \<and> b_row b < int (6 + k)"
    and "cellsUnique (bubbles st)"
    and "\<forall>r c. r < k \<and> c < 5 \<longrightarrow> covered (bubbles st) r c"
    and "\<forall>r c. r < 6 \<and> c < colsOf 5 r \<longrightarrow> covered (bubbles st) (r + k) c"
  using assms unfolding chainInv_def by (elim conjE) (rule that)

lemma newRow_rows:
  assumes "rowInv n new" "b \<in> set new"
  shows "b_row b = 0"
  using assms unfolding rowInv_def by blast

lemma chainInv_step:
  assumes inv: "chainInv k st" and k: "k \<le> 13"
  shows "chainInv (Suc k) (autoDrop (steady (100000 * real (Suc k))) st)"
proof -
  let ?env = "steady (100000 * real (Suc k))"
  let ?sh = "shiftDown (gridColsRef st) (canvasWidth ?env) (bubbles st)"
  let ?new = "fst (fold (newRowCell ?sh (canvasWidth ?env) (gridColsRef st) Easy (density Easy)
                           (dateNow ?env) (rnd ?env)) [0 ..< gridColsRef st] ([], 0))"
  from inv obtain f: "\<not> isPaused st" "\<not> gameOver st" "userProfile st = Some Easy"
    "\<not> isQuizActiveRef st" "\<not> isPinching st" "\<not> isFlying st" "\<not> gameWonSeen st"
    and ld: "lastDropTimeRef st = 100000 * real k" and gc: "gridColsRef st = 5"
    and rows: "\<forall>b \<in> set (bubbles st). 0 \<le> b_row b \<and> b_row b < int (6 + k)"
    and u: "cellsUnique (bubbles st)"
    and ct: "\<forall>r c. r < k \<and> c < 5 \<longrightarrow> covered (bubbles st) r c"
    and ci: "\<forall>r c. r < 6 \<and> c < colsOf 5 r \<longrightarrow> covered (bubbles st) (r + k) c"
    by (rule chainInvE)
  have e: "now ?env = 100000 * real (Suc k)" "canvasHeight ?env = 1000"
    "\<forall>i. rnd ?env i < density Easy"
    by (simp_all add: steady_def)
  have fire: "now ?env - lastDropTimeRef st > dropInterval Easy"
    unfolding e ld by simp
  have a: "autoDrop ?env st = addNewRow ?env st"
    unfolding autoDrop_def using f fire by simp
  have r19: "\<forall>b \<in> set (bubbles st). b_row b < 19" using rows k by fastforce
  have ng: "\<not> maxAbove (map b_y (filter b_active ?sh))
               (canvasHeight ?env - SLINGSHOT_BOTTOM_OFFSET - 80)"
    using r19 by (rule no_game_over) (simp add: steady_def)
  have st': "addNewRow ?env st = st\<lparr>bubbles := ?sh @ ?new, lastDropTimeRef := now ?env\<rparr>"
    using ng f(3) by (rule addNewRow_spawn)
  have b': "bubbles (addNewRow ?env st) = ?sh @ ?new" unfolding st' by simp
  have rn: "rowInv (gridColsRef st) ?new" by (rule newRow_rowInv)
  have 1: "\<forall>b \<in> set (?sh @ ?new). 0 \<le> b_row b \<and> b_row b < int (6 + Suc k)"
  proof
    fix b assume "b \<in> set (?sh @ ?new)"
    then consider "b \<in> set ?sh" | "b \<in> set ?new" by auto
    then show "0 \<le> b_row b \<and> b_row b < int (6 + Suc k)"
    proof cases
      case 1
      from shiftDown_rows [OF 1] obtain b0 where "b0 \<in> set (bubbles st)" "b_row b = b_row b0 + 1"
        by blast
      with rows show ?thesis by fastforce
    next
      case 2
      with rn have "b_row b = 0" by (rule newRow_rows)
      then show ?thesis by simp
    qed
  qed
  have 2: "cellsUnique (bubbles (addNewRow ?env st))"
    using u rows by (intro addNewRow_unique) auto
  have top: "\<forall>c' < gridColsRef st. covered ?new 0 c'"
    using e(3) by (rule newRow_cover)
  have 3: "\<forall>r c. r < Suc k \<and> c < 5 \<longrightarrow> covered (?sh @ ?new) r c"
  proof (intro allI impI)
    fix r c :: nat assume h: "r < Suc k \<and> c < 5"
    show "covered (?sh @ ?new) r c"
    proof (cases r)
      case 0
      from top h gc have "covered ?new 0 c" by simp
      then show ?thesis unfolding 0 covered_def by auto
    next
      case (Suc r')
      with h ct have "covered (bubbles st) r' c" by simp
      then have "covered ?sh (Suc r') c" by (rule shiftDown_cover)
      then show ?thesis unfolding Suc by (rule covered_append)
    qed
  qed
  have 4: "\<forall>r c. r < 6 \<and> c < colsOf 5 r \<longrightarrow> covered (?sh @ ?new) (r + Suc k) c"
  proof (intro allI impI)
    fix r c :: nat assume "r < 6 \<and> c < colsOf 5 r"
    with ci have "covered (bubbles st) (r + k) c" by blast
    then have "covered ?sh (Suc (r + k)) c" by (rule shiftDown_cover)
    then show "covered (?sh @ ?new) (r + Suc k) c" by (simp add: covered_append)
  qed
  have fl: "\<not> isPaused (addNewRow ?env st)" "\<not> gameOver (addNewRow ?env st)"
    "userProfile (addNewRow ?env st) = Some Easy" "\<not> isQuizActiveRef (addNewRow ?env st)"
    "\<not> isPinching (addNewRow ?env st)" "\<not> isFlying (addNewRow ?env st)"
    "\<not> gameWonSeen (addNewRow ?env st)"
    "lastDropTimeRef (addNewRow ?env st) = 100000 * real (Suc k)"
    "gridColsRef (addNewRow ?env st) = 5"
    unfolding st' using f gc e(1) by simp_all
  show ?thesis unfolding a chainInv_def
    by (intro conjI fl 1 [folded b'] 2 3 [folded b'] 4 [folded b'])
qed

lemma chainInv_descend: "k \<le> 14 \<Longrightarrow> chainInv k (descend k)"
proof (induction k)
  case 0
  show ?case by (rule chainInv_start)
next
  case (Suc k)
  then have "chainInv k (descend k)" "k \<le> 13" by simp_all
  then show ?case unfolding descend.simps by (rule chainInv_step)
qed

lemma descend_full: "windowFull 5 (bubbles (descend 14))"
proof -
  from chainInv_descend [of 14] have "chainInv 14 (descend 14)" by simp
  then obtain ct: "\<forall>r c. r < 14 \<and> c < 5 \<longrightarrow> covered (bubbles (descend 14)) r c"
    and ci: "\<forall>r c. r < 6 \<and> c < colsOf 5 r \<longrightarrow> covered (bubbles (descend 14)) (r + 14) c"
    by (rule chainInvE)
  show ?thesis unfolding windowFull_def colsOf_def [symmetric]
  proof (intro allI impI)
    fix r c :: nat assume r: "r < GRID_ROWS + 10" and c: "c < colsOf 5 r"
    show "covered (bubbles (descend 14)) r c"
    proof (cases "r < 14")
      case True
      moreover from c have "c < 5" unfolding colsOf_def by (simp split: if_splits)
      ultimately show ?thesis using ct by blast
    next
      case False
      then obtain r0 where r0: "r = r0 + 14" by (metis le_add_diff_inverse2 not_less)
      with r have "r0 < 6" by (simp add: GRID_ROWS_def)
      moreover have "colsOf 5 r = colsOf 5 r0" unfolding r0 colsOf_def js_rem_2_odd by simp
      ultimately show ?thesis using ci c unfolding r0 by simp
    qed
  qed
qed

subsection \<open>With a free cell in the window, the snap keeps cells unique\<close>

lemma fold_establish:
  assumes "x \<in> set xs" and "\<And>a. P (f x a)" and "\<And>y a. P a \<Longrightarrow> P (f y a)"
  shows "P (fold f xs a)"
  using assms(1)
proof (induction xs arbitrary: a)
  case Nil
  then show ?case by simp
next
  case (Cons y ys)
  show ?case
  proof (cases "x \<in> set ys")
    case True
    then show ?thesis using Cons.IH by simp
  next
    case False
    with Cons.prems have "y = x" by simp
    have "P (fold f ys (f x a))"
      by (rule fold_invariant [where Q = P]) (use assms(2,3) in auto)
    with \<open>y = x\<close> show ?thesis by simp
  qed
qed

lemma snapCell_free_or_kept:
  "snapCell cols w bs ball r c best = best
   \<or> (\<not> covered bs r c \<and> bestDist (snapCell cols w bs ball r c best) \<noteq> None
       \<and> bestRow (snapCell cols w bs ball r c best) = r
       \<and> bestCol (snapCell cols w bs ball r c best) = c)"
proof (cases "covered bs r c")
  case True
  then show ?thesis by (simp add: snapCell_occupied)
next
  case False
  then have "\<not> list_ex (\<lambda>b. b_active b \<and> \<not> b_isFloating b \<and> b_row b = int r \<and> b_col b = int c) bs"
    unfolding covered_def settled_def list_ex_iff by blast
  then show ?thesis using False unfolding snapCell_def Let_def by (simp split: option.split)
qed

lemma snapCell_found:
  assumes "\<not> covered bs r c"
  shows "bestDist (snapCell cols w bs ball r c best) \<noteq> None"
proof -
  from assms have "\<not> list_ex (\<lambda>b. b_active b \<and> \<not> b_isFloating b \<and> b_row b = int r \<and> b_col b = int c) bs"
    unfolding covered_def settled_def list_ex_iff by blast
  then show ?thesis unfolding snapCell_def Let_def by (cases "bestDist best") simp_all
qed

text \<open>A best cell, once found, is a free cell.\<close>

definition bestOk :: "Bubble list \<Rightarrow> Best \<Rightarrow> bool" where
  "bestOk bs best \<longleftrightarrow> (bestDist best \<noteq> None \<longrightarrow> \<not> covered bs (bestRow best) (bestCol best))"

lemma snapCell_bestOk:
  assumes "bestOk bs best"
  shows "bestOk bs (snapCell cols w bs ball r c best)"
  using snapCell_free_or_kept [of cols w bs ball r c best] assms
  unfolding bestOk_def by auto

lemma snapCell_keeps_found:
  assumes "bestDist best \<noteq> None"
  shows "bestDist (snapCell cols w bs ball r c best) \<noteq> None"
  using snapCell_free_or_kept [of cols w bs ball r c best] assms by auto

lemma snapScan_bestOk: "bestOk bs (snapScan cols w bs ball)"
  unfolding snapScan_def
proof (rule fold_invariant [where Q = "bestOk bs"])
  show "bestOk bs \<lparr>bestDist = None, bestRow = 0, bestCol = 0, bestX = 0, bestY = 0\<rparr>"
    by (simp add: bestOk_def)
next
  fix r and acc :: Best assume "bestOk bs acc"
  then show "bestOk bs (fold (snapCell cols w bs ball r)
               [0 ..< (if js_rem (int r) 2 \<noteq> 0 then cols - 1 else cols)] acc)"
    by (rule fold_invariant [where Q = "bestOk bs"]) (rule snapCell_bestOk)
qed

lemma snapScan_found:
  assumes "\<not> windowFull cols bs"
  shows "bestDist (snapScan cols w bs ball) \<noteq> None"
proof -
  from assms obtain r c where r: "r < GRID_ROWS + 10"
    and c: "c < (if js_rem (int r) 2 \<noteq> 0 then cols - 1 else cols)"
    and free: "\<not> covered bs r c"
    unfolding windowFull_def by blast
  let ?P = "\<lambda>best :: Best. bestDist best \<noteq> None"
  let ?row = "\<lambda>r. fold (snapCell cols w bs ball r)
                  [0 ..< (if js_rem (int r) 2 \<noteq> 0 then cols - 1 else cols)]"
  have keep: "?P (?row r' a)" if "?P a" for r' a
    using that by (rule fold_invariant [where Q = ?P]) (rule snapCell_keeps_found)
  have hit: "?P (?row r a)" for a
  proof (rule fold_establish [where x = c and P = ?P])
    show "c \<in> set [0 ..< (if js_rem (int r) 2 \<noteq> 0 then cols - 1 else cols)]" using c by simp
  next
    fix a :: Best show "?P (snapCell cols w bs ball r c a)" using free by (rule snapCell_found)
  next
    fix y and a :: Best assume "?P a"
    then show "?P (snapCell cols w bs ball r y a)" by (rule snapCell_keeps_found)
  qed
  show ?thesis unfolding snapScan_def
  proof (rule fold_establish [where x = r and P = ?P])
    show "r \<in> set [0 ..< GRID_ROWS + 10]" using r by simp
  next
    fix a :: Best show "?P (?row r a)" by (rule hit)
  next
    fix y and a :: Best assume "?P a"
    then show "?P (?row y a)" by (rule keep)
  qed
qed

lemma first_settler:
  assumes "cellsUnique bs" "settled n" "\<not> (\<exists>b \<in> set bs. settled b \<and> b_row b = b_row n \<and> b_col b = b_col n)"
  shows "cellsUnique (bs @ [n])"
proof -
  have "(b_row n, b_col n) \<notin> set (map (\<lambda>b. (b_row b, b_col b)) (filter settled bs))"
    using assms(3) by auto
  then show ?thesis using assms(1,2) unfolding cellsUnique_def by simp
qed

lemma snapProjectile_unique:
  assumes "cellsUnique (bubbles st)" and "\<not> windowFull (gridColsRef st) (bubbles st)"
  shows "cellsUnique (bubbles (snapProjectile env st))"
proof -
  let ?best = "snapScan (gridColsRef st) (canvasWidth env) (bubbles st) (ballPos st)"
  have "bestDist ?best \<noteq> None" using assms(2) by (rule snapScan_found)
  with snapScan_bestOk [of "bubbles st" "gridColsRef st" "canvasWidth env" "ballPos st"]
  have free: "\<not> covered (bubbles st) (bestRow ?best) (bestCol ?best)"
    unfolding bestOk_def by blast
  show ?thesis unfolding snapProjectile_bubbles Let_def
  proof (rule first_settler [OF assms(1)])
    show "settled (newBubble (toString (bestRow ?best) @ ''-'' @ toString (bestCol ?best) @ ''-''
                                @ toString (dateNow env))
                     (int (bestRow ?best)) (int (bestCol ?best)) (bestX ?best, bestY ?best)
                     (currentAmmo st))"
      by (simp add: newBubble_def settled_def)
  next
    show "\<not> (\<exists>b \<in> set (bubbles st). settled b
              \<and> b_row b = b_row (newBubble (toString (bestRow ?best) @ ''-'' @ toString (bestCol ?best) @ ''-''
                                @ toString (dateNow env))
                     (int (bestRow ?best)) (int (bestCol ?best)) (bestX ?best, bestY ?best)
                     (currentAmmo st))
              \<and> b_col b = b_col (newBubble (toString (bestRow ?best) @ ''-'' @ toString (bestCol ?best) @ ''-''
                                @ toString (dateNow env))
                     (int (bestRow ?best)) (int (bestCol ?best)) (bestX ?best, bestY ?best)
                     (currentAmmo st)))"
      using free unfolding covered_def by (simp add: newBubble_def)
  qed
qed

subsection \<open>Resolving a match keeps cells unique\<close>

text \<open>
  \<open>b'\<close> sits in the cell of \<open>b\<close> and is settled only if \<open>b\<close> was: what resolving a match does to
  a bubble.
\<close>

definition fades :: "Bubble \<Rightarrow> Bubble \<Rightarrow> bool" where
  "fades b b' \<longleftrightarrow> b_row b' = b_row b \<and> b_col b' = b_col b \<and> (settled b' \<longrightarrow> settled b)"

lemma fades_unique:
  assumes "list_all2 fades xs ys" and "cellsUnique xs"
  shows "cellsUnique ys"
  using assms
proof (induction rule: list_all2_induct)
  case Nil
  then show ?case by simp
next
  case (Cons x xs y ys)
  from Cons.prems have u: "cellsUnique xs" unfolding cellsUnique_def by (simp split: if_splits)
  then have iy: "cellsUnique ys" by (rule Cons.IH)
  show ?case
  proof (cases "settled y")
    case False
    with iy show ?thesis unfolding cellsUnique_def by simp
  next
    case True
    with Cons.hyps(1) have sx: "settled x" and cx: "b_row y = b_row x" "b_col y = b_col x"
      unfolding fades_def by blast+
    have "(b_row y, b_col y) \<notin> set (map (\<lambda>b. (b_row b, b_col b)) (filter settled ys))"
    proof
      assume "(b_row y, b_col y) \<in> set (map (\<lambda>b. (b_row b, b_col b)) (filter settled ys))"
      then obtain y' where y': "y' \<in> set ys" "settled y'" "b_row y' = b_row y" "b_col y' = b_col y"
        by auto
      from Cons.hyps(2) have "list_all2 (\<lambda>b' b. fades b b') ys xs"
        by (simp add: list_all2_conv_all_nth)
      from list_all2_pick [OF this y'(1)] obtain x' where x': "x' \<in> set xs" "fades x' y'" by blast
      with y' cx have "settled x'" "b_row x' = b_row x" "b_col x' = b_col x"
        unfolding fades_def by auto
      with x'(1) have "x' \<in> set (filter settled xs)" "(b_row x, b_col x) = (b_row x', b_col x')"
        by simp_all
      then have "(b_row x, b_col x) \<in> set (map (\<lambda>b. (b_row b, b_col b)) (filter settled xs))"
        by (metis (mono_tags, lifting) image_eqI set_map)
      with Cons.prems sx show False unfolding cellsUnique_def by simp
    qed
    with iy True show ?thesis unfolding cellsUnique_def by simp
  qed
qed

lemma popMatches_fades: "list_all2 fades bs (popMatches t pm bs)"
  unfolding popMatches_def by (induction bs) (simp_all add: fades_def settled_def)

lemma sameButFloat_fades: "sameButFloat orphan b b' \<Longrightarrow> fades b b'"
  unfolding sameButFloat_def fades_def settled_def by auto

lemma awardMatch_unique:
  assumes "cellsUnique (bubbles st)"
  shows "cellsUnique (bubbles (fst (awardMatch env d st)))"
proof -
  let ?post = "popMatches (now env) (pendingMatches st) (bubbles st)"
  have "cellsUnique ?post" using popMatches_fades assms by (rule fades_unique)
  moreover have "list_all2 fades ?post (bubbles (fst (awardMatch env d st)))"
    using awardMatch_rel [of env st d] sameButFloat_fades
    by (rule list_all2_mono)
  ultimately show ?thesis using fades_unique by blast
qed

lemma completeMatch_unique:
  assumes "cellsUnique (bubbles st)"
  shows "cellsUnique (bubbles (completeMatch env awarded st))"
  using completeMatch_bubbles [of env awarded st] assms awardMatch_unique initGrid_unique
  by metis

text \<open>
  C6 (the code at a failing input). The state after \<open>initGrid\<close> and 14 row spawns is not
  lost and has no two settled bubbles in one cell. A projectile that collides in this
  state is snapped by the scan, which finds no free cell in rows 0 to 19 and leaves
  \<open>bestRow = bestCol = 0\<close>: the new bubble is put into the occupied cell (0, 0), and two
  settled bubbles share a cell.
\<close>

theorem snap_after_descent_duplicates_cell:
  "\<not> gameOver (descend 14) \<and> cellsUnique (bubbles (descend 14))
   \<and> \<not> cellsUnique (bubbles (snapProjectile (steady 1500000) (descend 14)))"
proof -
  from chainInv_descend [of 14] have "chainInv 14 (descend 14)" by simp
  then obtain "\<not> gameOver (descend 14)" "gridColsRef (descend 14) = 5"
    "cellsUnique (bubbles (descend 14))"
    by (rule chainInvE)
  moreover have "\<not> cellsUnique (bubbles (snapProjectile (steady 1500000) (descend 14)))"
    using descend_full \<open>gridColsRef (descend 14) = 5\<close>
    by (intro snapProjectile_full_window) simp_all
  ultimately show ?thesis by blast
qed

end
